theory Spec2Isabelle
  imports Complex_Main
begin

text \<open>
  The dice calculator of \<open>js/calculate.js\<close> with the two utilities it calls, \<open>require\<close>
  and \<open>simulateSumToInfinity\<close>: the classes \<open>Dice\<close> (constructor, \<open>parse\<close>,
  \<open>prettyName\<close>, \<open>withCount\<close>), \<open>DiceCalculator\<close> and \<open>DiceResult\<close>.
  A thrown message is the left summand of a result, a loop without a bound returns an
  option, and the two static caches are explicit state. The sections of lemmas follow the
  definitions, and the last section states the claims C1 to C10 in order.
\<close>

section \<open>JavaScript values used by the dice calculator\<close>

text \<open>
  The values that reach a \<open>Dice\<close> are results of \<open>parseInt\<close>: an integer or \<open>NaN\<close>.
  Probabilities and sums are JavaScript numbers as well; they are modelled as exact reals,
  so rounding of IEEE doubles is outside this development, and integers are not limited
  to 53 bits.
\<close>

datatype number = NaN | Num int

text \<open>Comparisons of JavaScript: every comparison with \<open>NaN\<close> is false.\<close>

fun js_gt :: "number \<Rightarrow> int \<Rightarrow> bool" where
  "js_gt NaN b = False"
| "js_gt (Num a) b = (a > b)"

fun js_ge :: "number \<Rightarrow> int \<Rightarrow> bool" where
  "js_ge NaN b = False"
| "js_ge (Num a) b = (a \<ge> b)"

fun js_le :: "number \<Rightarrow> int \<Rightarrow> bool" where
  "js_le NaN b = False"
| "js_le (Num a) b = (a \<le> b)"

text \<open>\<open>x * -1\<close> and \<open>Math.abs(x)\<close>; both keep \<open>NaN\<close>.\<close>

fun js_negate :: "number \<Rightarrow> number" where
  "js_negate NaN = NaN"
| "js_negate (Num a) = Num (a * (- 1))"

fun js_abs :: "number \<Rightarrow> number" where
  "js_abs NaN = NaN"
| "js_abs (Num a) = Num \<bar>a\<bar>"

text \<open>Conversion of a number to a string (decimal digits, a leading minus, or \<open>NaN\<close>).\<close>

fun showNat :: "nat \<Rightarrow> string" where
  "showNat n = (if n < 10 then [''0123456789'' ! n]
                else showNat (n div 10) @ [''0123456789'' ! (n mod 10)])"

declare showNat.simps [simp del]

fun showNumber :: "number \<Rightarrow> string" where
  "showNumber NaN = ''NaN''"
| "showNumber (Num a) = (if a < 0 then CHR ''-'' # showNat (nat (- a)) else showNat (nat a))"

text \<open>
  \<open>String.prototype.trim\<close> and the white space that \<open>parseInt\<close> skips, on the ASCII
  white space characters (tab, line feed, vertical tab, form feed, carriage return, space).
\<close>

definition isWhiteSpace :: "char \<Rightarrow> bool" where
  "isWhiteSpace c \<longleftrightarrow> c \<in> set [CHR 0x09, CHR 0x0A, CHR 0x0B, CHR 0x0C, CHR 0x0D, CHR '' '']"

definition trim :: "string \<Rightarrow> string" where
  "trim s = rev (dropWhile isWhiteSpace (rev (dropWhile isWhiteSpace s)))"

text \<open>
  \<open>parseInt(string)\<close> without a radix: skip leading white space, read a sign, switch to
  radix 16 after a \<open>0x\<close> or \<open>0X\<close> prefix, read the longest prefix of digits of the radix;
  \<open>NaN\<close> when that prefix is empty.
\<close>

definition digitValue :: "char \<Rightarrow> nat option" where
  "digitValue c =
     (let n = (of_char c :: nat) in
      if 48 \<le> n \<and> n \<le> 57 then Some (n - 48)
      else if 97 \<le> n \<and> n \<le> 122 then Some (n - 87)
      else if 65 \<le> n \<and> n \<le> 90 then Some (n - 55)
      else None)"

definition isDigit :: "nat \<Rightarrow> char \<Rightarrow> bool" where
  "isDigit radix c = (case digitValue c of Some v \<Rightarrow> v < radix | None \<Rightarrow> False)"

definition digitsValue :: "nat \<Rightarrow> string \<Rightarrow> nat" where
  "digitsValue radix z = foldl (\<lambda>acc c. acc * radix + (case digitValue c of Some v \<Rightarrow> v | None \<Rightarrow> 0)) 0 z"

definition parseInt :: "string \<Rightarrow> number" where
  "parseInt str =
     (let s = dropWhile isWhiteSpace str;
          sign = (case s of c # r \<Rightarrow> if c = CHR ''-'' then - 1 else 1 | [] \<Rightarrow> (1::int));
          s1 = (case s of c # r \<Rightarrow> if c = CHR ''-'' \<or> c = CHR ''+'' then r else s | [] \<Rightarrow> s);
          hex = (case s1 of c0 # c1 # r \<Rightarrow> c0 = CHR ''0'' \<and> (c1 = CHR ''x'' \<or> c1 = CHR ''X'') | _ \<Rightarrow> False);
          radix = (if hex then 16 else 10);
          s2 = (if hex then drop 2 s1 else s1);
          z = takeWhile (isDigit radix) s2
      in if z = [] then NaN else Num (sign * int (digitsValue radix z)))"

text \<open>
  \<open>name.split(new RegExp("[dDwW\+\-]"))\<close>: the separator matches one character of the
  class, so the string is cut at every such character and empty pieces are kept.
\<close>

definition isDelimiter :: "char \<Rightarrow> bool" where
  "isDelimiter c \<longleftrightarrow> c \<in> set [CHR ''d'', CHR ''D'', CHR ''w'', CHR ''W'', CHR ''+'', CHR ''-'']"

fun split_regex :: "string \<Rightarrow> string list" where
  "split_regex [] = [[]]"
| "split_regex (c # cs) =
     (if isDelimiter c then [] # split_regex cs
      else (case split_regex cs of t # ts \<Rightarrow> (c # t) # ts | [] \<Rightarrow> [[c]]))"

section \<open>util: require\<close>

text \<open>\<open>require\<close> throws its message when the condition is false. A thrown message is \<open>Inl\<close>.\<close>

definition require :: "bool \<Rightarrow> string \<Rightarrow> string + unit" where
  "require b message = (if \<not> b then Inl message else Inr ())"

section \<open>class Dice\<close>

record Dice =
  name :: string
  count :: number
  sides :: number
  modifier :: number

definition Dice_new :: "string \<Rightarrow> number \<Rightarrow> number \<Rightarrow> number \<Rightarrow> string + Dice" where
  "Dice_new nm cnt sds md =
     (case require (js_gt cnt 0) ''Dice count must be positive'' of Inl e \<Rightarrow> Inl e | Inr _ \<Rightarrow>
     (case require (js_ge sds 2) ''Number of sides of a dice must be at least 2'' of Inl e \<Rightarrow> Inl e | Inr _ \<Rightarrow>
     (case require (js_le cnt 16) ''Dice count may not exceed 32'' of Inl e \<Rightarrow> Inl e | Inr _ \<Rightarrow>
     (case require (js_le sds 100) ''Number of sides may not exceed 100'' of Inl e \<Rightarrow> Inl e | Inr _ \<Rightarrow>
      Inr \<lparr>name = nm, count = cnt, sides = sds, modifier = md\<rparr>))))"

definition prettyName :: "number \<Rightarrow> number \<Rightarrow> number \<Rightarrow> string" where
  "prettyName cnt sds md =
     (let pn = showNumber cnt @ ''d'' @ showNumber sds in
      if md \<noteq> Num 0
      then pn @ (if js_gt md 0 then ''+'' else ''-'') @ showNumber (js_abs md)
      else pn)"

definition parse :: "string \<Rightarrow> string + Dice" where
  "parse nm =
     (let tokens = split_regex nm in
      case require (length tokens \<ge> 2) (''Invalid dice description: '' @ nm) of Inl e \<Rightarrow> Inl e | Inr _ \<Rightarrow>
      (let diceCountString = trim (tokens ! 0);
           cnt = (if length diceCountString = 0 then Num 1 else parseInt diceCountString);
           sds = parseInt (trim (tokens ! 1));
           isNegative = (CHR ''-'' \<in> set nm);
           md0 = (if length tokens > 2 then parseInt (trim (tokens ! 2)) else Num 0);
           md = (if isNegative then js_negate md0 else md0);
           pn = prettyName cnt sds md
       in Dice_new pn cnt sds md))"

definition withCount :: "Dice \<Rightarrow> number \<Rightarrow> number \<Rightarrow> number \<Rightarrow> string + Dice" where
  "withCount d cnt sds md = Dice_new (prettyName cnt sds md) cnt sds md"

section \<open>util: simulateSumToInfinity\<close>

text \<open>
  The options object of \<open>simulateSumToInfinity\<close> with its defaults. A caller that passes
  \<open>{startIndex: s}\<close> updates \<open>defaultOptions\<close> in that field.
\<close>

record SumOptions =
  threshold :: real
  minIterations :: int
  maxIterations :: int
  startIndex :: int

definition defaultOptions :: SumOptions where
  "defaultOptions = \<lparr>threshold = 0.0001, minIterations = 20, maxIterations = 5000, startIndex = 1\<rparr>"

text \<open>
  The \<open>do ... while\<close> loop. Its state is \<open>i\<close>, \<open>newValue\<close> and \<open>nextAddend\<close>
  (\<open>oldValue\<close> is never read, \<open>addend\<close> is overwritten at once). The term function can
  throw, since the calculator's probabilities can.
\<close>

function sumLoop :: "(int \<Rightarrow> string + real) \<Rightarrow> SumOptions \<Rightarrow> int \<Rightarrow> real \<Rightarrow> real \<Rightarrow> string + real" where
  "sumLoop sumFunction opts i newValue nextAddend =
     (let i' = i + 1;
          addend = nextAddend
      in case sumFunction (i' + 1) of Inl e \<Rightarrow> Inl e | Inr nextAddend' \<Rightarrow>
         (let newValue' = newValue + addend
          in if i' < minIterations opts
                \<or> (i' < maxIterations opts \<and> (addend > threshold opts \<or> nextAddend' > threshold opts))
             then sumLoop sumFunction opts i' newValue' nextAddend'
             else Inr newValue'))"
  by pat_completeness auto
termination
  by (relation "measure (\<lambda>(sumFunction, opts, i, newValue, nextAddend).
        nat (max (minIterations opts) (maxIterations opts) - i))") auto

declare sumLoop.simps [simp del]

definition simulateSumToInfinity :: "(int \<Rightarrow> string + real) \<Rightarrow> SumOptions \<Rightarrow> string + real" where
  "simulateSumToInfinity sumFunction opts =
     (let i = startIndex opts
      in case sumFunction i of Inl e \<Rightarrow> Inl e | Inr newValue \<Rightarrow>
        (case sumFunction (i + 1) of Inl e \<Rightarrow> Inl e | Inr nextAddend \<Rightarrow>
         sumLoop sumFunction opts i newValue nextAddend))"

section \<open>class DiceCalculator\<close>

text \<open>
  A method of \<open>DiceCalculator\<close> is a function of \<open>this.dice\<close> (and of
  \<open>this.concurringDices\<close> where the method reads it). The calculator does integer
  arithmetic on the fields of its dice; \<open>int_of\<close> reads a field that holds an integer,
  and the calculator is modelled for such dice only (\<open>int_of NaN\<close> is left open).

  The functions of this section give the value that a method computes. The two static
  caches are memo tables; the methods that read and fill them are modelled with the caches
  as explicit state in the section on the caches, and they return the value given here in
  every state of the caches that calls on valid dice can produce
  (\<open>cachedProbabilityForResultEqualTo_transparent\<close>,
  \<open>cachedProbabilityForResultLessOrEqualTo_transparent\<close>). The depth of the call stack is
  not limited.
\<close>

fun int_of :: "number \<Rightarrow> int" where
  "int_of (Num a) = a"
| "int_of NaN = undefined"

text \<open>\<open>x - b\<close> on a field, and the remainder \<open>a % b\<close> (the sign of the dividend), for \<open>b \<noteq> 0\<close>.\<close>

fun js_sub :: "number \<Rightarrow> int \<Rightarrow> number" where
  "js_sub NaN b = NaN"
| "js_sub (Num a) b = Num (a - b)"

definition js_rem :: "int \<Rightarrow> int \<Rightarrow> int" where
  "js_rem a b = sgn a * (\<bar>a\<bar> mod \<bar>b\<bar>)"

definition getExplosionCountForResult :: "Dice \<Rightarrow> int \<Rightarrow> int" where
  "getExplosionCountForResult d k = \<lfloor>real_of_int k / real_of_int (int_of (sides d))\<rfloor>"

text \<open>
  \<open>calculateProbabilityForResultEqualTo\<close>, with its \<open>for\<close> loop as \<open>convolution\<close>
  (loop variable \<open>i\<close>, accumulator \<open>result\<close>). \<open>withCount(1)\<close> is
  \<open>withCount(1, this.sides, this.modifier)\<close> by the default arguments.
\<close>

function calculateProbabilityForResultEqualTo :: "Dice \<Rightarrow> int \<Rightarrow> string + real"
  and convolution :: "Dice \<Rightarrow> Dice \<Rightarrow> int \<Rightarrow> int \<Rightarrow> real \<Rightarrow> string + real"
where
  "calculateProbabilityForResultEqualTo d k =
     (let sds = int_of (sides d);
          cnt = count d;
          md = int_of (modifier d);
          kWithModifier = k;
          kWithoutModifier = k - md
      in if cnt = Num 1 \<and> js_rem kWithoutModifier sds = 0 \<or> kWithoutModifier < 0 then Inr 0
         else if cnt = Num 1
         then Inr (1 / (real_of_int sds powi (getExplosionCountForResult d kWithoutModifier + 1)))
         else (case withCount d (Num 1) (sides d) (modifier d) of Inl e \<Rightarrow> Inl e | Inr singleDice \<Rightarrow>
              (case withCount d (js_sub cnt 1) (sides d) (Num 0) of Inl e \<Rightarrow> Inl e | Inr simplerDice \<Rightarrow>
               convolution singleDice simplerDice kWithModifier 1 0)))"
| "convolution singleDice simplerDice kWithModifier i result =
     (if i < kWithModifier
      then (case calculateProbabilityForResultEqualTo singleDice i of Inl e \<Rightarrow> Inl e | Inr p \<Rightarrow>
           (case calculateProbabilityForResultEqualTo simplerDice (kWithModifier - i) of Inl e \<Rightarrow> Inl e | Inr q \<Rightarrow>
            convolution singleDice simplerDice kWithModifier (i + 1) (result + p * q)))
      else Inr result)"
  by pat_completeness auto
termination
  apply (relation "inv_image (less_than <*lex*> less_than)
    (\<lambda>x. case x of
       Inl (d, k) \<Rightarrow> (2 * nat (int_of (count d)), 0)
     | Inr (singleDice, simplerDice, kWithModifier, i, result) \<Rightarrow>
         (2 * max (nat (int_of (count singleDice))) (nat (int_of (count simplerDice))) + 1,
          nat (kWithModifier - i)))")
  subgoal by (intro wf_inv_image wf_lex_prod wf_less_than)
  subgoal for d k sds cnt md kWithModifier kWithoutModifier singleDice simplerDice
    by (cases "count d")
       (auto simp: withCount_def Dice_new_def require_def split: if_splits)
  subgoal by auto
  subgoal by auto
  subgoal by auto
  done

declare calculateProbabilityForResultEqualTo.simps [simp del] convolution.simps [simp del]

definition probabilityForResultEqualTo :: "Dice \<Rightarrow> int \<Rightarrow> string + real" where
  "probabilityForResultEqualTo d k = calculateProbabilityForResultEqualTo d k"

function probabilityForResultLessOrEqualTo :: "Dice \<Rightarrow> int \<Rightarrow> string + real" where
  "probabilityForResultLessOrEqualTo d k =
     (if k > 0 + int_of (modifier d)
      then (case probabilityForResultLessOrEqualTo d (k - 1) of Inl e \<Rightarrow> Inl e | Inr below \<Rightarrow>
           (case probabilityForResultEqualTo d k of Inl e \<Rightarrow> Inl e | Inr equal \<Rightarrow>
            Inr (below + equal)))
      else Inr 0)"
  by pat_completeness auto
termination
  by (relation "measure (\<lambda>(d, k). nat (k - int_of (modifier d)))") auto

declare probabilityForResultLessOrEqualTo.simps [simp del]

definition probabilityForResultLessThan :: "Dice \<Rightarrow> int \<Rightarrow> string + real" where
  "probabilityForResultLessThan d k = probabilityForResultLessOrEqualTo d (k - 1)"

definition probabilityForResultGreaterThan :: "Dice \<Rightarrow> int \<Rightarrow> string + real" where
  "probabilityForResultGreaterThan d k =
     (case probabilityForResultLessOrEqualTo d k of Inl e \<Rightarrow> Inl e | Inr p \<Rightarrow> Inr (1 - p))"

definition probabilityForResultGreaterOrEqualTo :: "Dice \<Rightarrow> int \<Rightarrow> string + real" where
  "probabilityForResultGreaterOrEqualTo d k =
     (case probabilityForResultLessThan d k of Inl e \<Rightarrow> Inl e | Inr p \<Rightarrow> Inr (1 - p))"

text \<open>\<open>calculateProbabilityMap(len)\<close>: the entries \<open>0, ..., len - 1\<close> in order; the first throw ends it.\<close>

fun probabilityMapFrom :: "Dice \<Rightarrow> int list \<Rightarrow> string + real list" where
  "probabilityMapFrom d [] = Inr []"
| "probabilityMapFrom d (k # ks) =
     (case probabilityForResultGreaterOrEqualTo d k of Inl e \<Rightarrow> Inl e | Inr p \<Rightarrow>
     (case probabilityMapFrom d ks of Inl e \<Rightarrow> Inl e | Inr ps \<Rightarrow> Inr (p # ps)))"

definition calculateProbabilityMap :: "Dice \<Rightarrow> nat \<Rightarrow> string + real list" where
  "calculateProbabilityMap d len = probabilityMapFrom d (map int [0..<len])"

function calculateExpectedValue :: "Dice \<Rightarrow> string + real" where
  "calculateExpectedValue d =
     (if count d = Num 1
      then simulateSumToInfinity
             (\<lambda>i. case probabilityForResultEqualTo d i of Inl e \<Rightarrow> Inl e | Inr p \<Rightarrow> Inr (real_of_int i * p))
             (defaultOptions\<lparr>startIndex := int_of (modifier d)\<rparr>)
      else (case withCount d (Num 1) (sides d) (Num 0) of Inl e \<Rightarrow> Inl e | Inr singleDice \<Rightarrow>
           (case calculateExpectedValue singleDice of Inl e \<Rightarrow> Inl e | Inr ev \<Rightarrow>
            Inr (real_of_int (int_of (count d)) * ev + real_of_int (int_of (modifier d))))))"
  by pat_completeness auto
termination
  by (relation "measure (\<lambda>d. if count d = Num 1 then 0 else 1)")
     (auto simp: withCount_def Dice_new_def require_def split: if_splits)

declare calculateExpectedValue.simps [simp del]

text \<open>
  \<open>calculateMedian\<close>: the loop has no bound, so not returning is the value \<open>None\<close>.
  The second test of \<open>probabilityForResultLessOrEqualTo(i)\<close> reads the value of the first.
\<close>

partial_function (option) medianLoop :: "Dice \<Rightarrow> int \<Rightarrow> (string + real) option" where
  "medianLoop d i =
     (case probabilityForResultLessOrEqualTo d i of Inl e \<Rightarrow> Some (Inl e) | Inr le \<Rightarrow>
        if le \<ge> 0.5
        then (case probabilityForResultGreaterOrEqualTo d i of Inl e \<Rightarrow> Some (Inl e) | Inr ge \<Rightarrow>
                if ge \<ge> 0.5 then Some (Inr (real_of_int i))
                else if le > 0.5 then Some (Inr (real_of_int i - 0.5))
                else medianLoop d (i + 1))
        else if le > 0.5 then Some (Inr (real_of_int i - 0.5))
        else medianLoop d (i + 1))"

definition calculateMedian :: "Dice \<Rightarrow> (string + real) option" where
  "calculateMedian d = medianLoop d (1 + int_of (modifier d))"

text \<open>\<open>calculateVariance(exp)\<close>; the parameter is written \<open>expect\<close> here.\<close>

function calculateVariance :: "Dice \<Rightarrow> real \<Rightarrow> string + real" where
  "calculateVariance d expect =
     (if count d = Num 1
      then simulateSumToInfinity
             (\<lambda>i. case probabilityForResultEqualTo d i of Inl e \<Rightarrow> Inl e
                  | Inr p \<Rightarrow> Inr (((expect - real_of_int i) ^ 2) * p))
             (defaultOptions\<lparr>startIndex := int_of (modifier d)\<rparr>)
      else (case withCount d (Num 1) (sides d) (modifier d) of Inl e \<Rightarrow> Inl e | Inr singleDice \<Rightarrow>
            calculateVariance singleDice expect))"
  by pat_completeness auto
termination
  by (relation "measure (\<lambda>(d, expect). if count d = Num 1 then 0 else 1)")
     (auto simp: withCount_def Dice_new_def require_def split: if_splits)

declare calculateVariance.simps [simp del]

definition calculateStandardDeviation :: "real \<Rightarrow> real" where
  "calculateStandardDeviation variance = sqrt variance"

definition probabilityToWinAgainst :: "Dice \<Rightarrow> Dice \<Rightarrow> string + real" where
  "probabilityToWinAgainst d otherDice =
     simulateSumToInfinity
       (\<lambda>i. case probabilityForResultEqualTo d i of Inl e \<Rightarrow> Inl e | Inr p \<Rightarrow>
            (case probabilityForResultLessThan otherDice i of Inl e \<Rightarrow> Inl e | Inr q \<Rightarrow> Inr (p * q)))
       (defaultOptions\<lparr>startIndex := min (int_of (modifier d)) (int_of (modifier otherDice)),
                        minIterations := int_of (sides d) * int_of (count d)\<rparr>)"

fun calculateWinProbabilityMap :: "Dice \<Rightarrow> Dice list \<Rightarrow> string + (string \<times> real) list" where
  "calculateWinProbabilityMap d [] = Inr []"
| "calculateWinProbabilityMap d (dice # dices) =
     (case probabilityToWinAgainst d dice of Inl e \<Rightarrow> Inl e | Inr probability \<Rightarrow>
     (case calculateWinProbabilityMap d dices of Inl e \<Rightarrow> Inl e | Inr rest \<Rightarrow>
      Inr ((name dice, probability) # rest)))"

section \<open>class DiceResult and calculate\<close>

record DiceResult =
  dice :: Dice
  expectedValue :: real
  median :: real
  variance :: real
  standardDeviation :: real
  pFail :: real
  pGreaterThan :: "real list"
  pToWinAgainstOthers :: "(string \<times> real) list"

text \<open>
  \<open>calculate\<close> evaluates the arguments of \<open>new DiceResult\<close> from left to right. It returns
  \<open>None\<close> when the median loop does not return.
\<close>

definition calculate :: "Dice \<Rightarrow> Dice list \<Rightarrow> (string + DiceResult) option" where
  "calculate d concurringDices =
     (case calculateExpectedValue d of Inl e \<Rightarrow> Some (Inl e) | Inr expValue \<Rightarrow>
     (case calculateVariance d expValue of Inl e \<Rightarrow> Some (Inl e) | Inr var \<Rightarrow>
     (case calculateMedian d of None \<Rightarrow> None | Some (Inl e) \<Rightarrow> Some (Inl e) | Some (Inr med) \<Rightarrow>
     (case probabilityForResultLessThan d 4 of Inl e \<Rightarrow> Some (Inl e) | Inr pf \<Rightarrow>
     (case calculateProbabilityMap d 25 of Inl e \<Rightarrow> Some (Inl e) | Inr pmap \<Rightarrow>
     (case calculateWinProbabilityMap d concurringDices of Inl e \<Rightarrow> Some (Inl e) | Inr wins \<Rightarrow>
      Some (Inr \<lparr>dice = d, expectedValue = expValue, median = med, variance = var,
                  standardDeviation = calculateStandardDeviation var, pFail = pf,
                  pGreaterThan = pmap, pToWinAgainstOthers = wins\<rparr>)))))))"

section \<open>Valid dice and the distribution that the calculator computes\<close>

text \<open>
  A valid Dice is one that the constructor returns for its own fields under the canonical
  name, as \<open>parse\<close> and \<open>withCount\<close> build it, and whose modifier is an integer.
\<close>

definition valid :: "Dice \<Rightarrow> bool" where
  "valid d \<longleftrightarrow> withCount d (count d) (sides d) (modifier d) = Inr d \<and> modifier d \<noteq> NaN"

text \<open>The dice with given integer fields, and the bounds the constructor accepts.\<close>

definition mkDice :: "int \<Rightarrow> int \<Rightarrow> int \<Rightarrow> Dice" where
  "mkDice c s m = \<lparr>name = prettyName (Num c) (Num s) (Num m), count = Num c, sides = Num s, modifier = Num m\<rparr>"

definition inBounds :: "int \<Rightarrow> int \<Rightarrow> bool" where
  "inBounds c s \<longleftrightarrow> 1 \<le> c \<and> c \<le> 16 \<and> 2 \<le> s \<and> s \<le> 100"

text \<open>
  For the proofs: the probability that one exploding die of \<open>s\<close> sides shows \<open>r\<close>, the
  distribution of \<open>n + 1\<close> dice the way the convolution loop computes it, and its partial sums.
\<close>

definition singlePmf :: "int \<Rightarrow> int \<Rightarrow> real" where
  "singlePmf s r = (if s dvd r \<or> r < 0 then 0 else 1 / (real_of_int s ^ nat (r div s + 1)))"

fun pmfN :: "nat \<Rightarrow> int \<Rightarrow> int \<Rightarrow> int \<Rightarrow> real" where
  "pmfN 0 s m k = singlePmf s (k - m)"
| "pmfN (Suc n) s m k =
     (if k - m < 0 then 0 else (\<Sum>i = 1..k - 1. singlePmf s (i - m) * pmfN n s 0 (k - i)))"

definition cdfN :: "nat \<Rightarrow> int \<Rightarrow> int \<Rightarrow> int \<Rightarrow> real" where
  "cdfN n s m k = (\<Sum>j = m + 1..k. pmfN n s m j)"

text \<open>The condition under which the loop of \<open>simulateSumToInfinity\<close> is left at index \<open>n\<close>.\<close>

definition stopsAt :: "(int \<Rightarrow> real) \<Rightarrow> SumOptions \<Rightarrow> int \<Rightarrow> bool" where
  "stopsAt f opts n \<longleftrightarrow>
     minIterations opts \<le> n \<and>
     (maxIterations opts \<le> n \<or> (f n \<le> threshold opts \<and> f (n + 1) \<le> threshold opts))"

text \<open>
  The term that \<open>calculateVariance(exp)\<close> sums for one die of \<open>s\<close> sides and modifier
  \<open>m\<close>: the squared distance of \<open>i\<close> from \<open>exp\<close> times the probability that the die
  shows \<open>i\<close>.
\<close>

definition varianceTerm :: "int \<Rightarrow> int \<Rightarrow> real \<Rightarrow> int \<Rightarrow> real" where
  "varianceTerm s m expect i = (expect - real_of_int i)\<^sup>2 * singlePmf s (i - m)"

text \<open>
  What \<open>calculateMedian\<close> returns at index \<open>i\<close>: \<open>i\<close> when both
  \<open>probabilityForResultLessOrEqualTo(i)\<close> and \<open>probabilityForResultGreaterOrEqualTo(i)\<close>
  are at least 0.5, and \<open>i - 0.5\<close> when the first is above 0.5 and the second is not
  at least 0.5.
\<close>

definition medianAt :: "Dice \<Rightarrow> int \<Rightarrow> real \<Rightarrow> bool" where
  "medianAt d i med \<longleftrightarrow>
     (\<exists>le ge. probabilityForResultLessOrEqualTo d i = Inr le
            \<and> probabilityForResultGreaterOrEqualTo d i = Inr ge
            \<and> (med = real_of_int i \<and> 1 / 2 \<le> le \<and> 1 / 2 \<le> ge
                \<or> med = real_of_int i - 1 / 2 \<and> 1 / 2 < le \<and> ge < 1 / 2))"

section \<open>The static caches of DiceCalculator\<close>

text \<open>
  \<open>probabilityEqualCache\<close> and \<open>probabilityLessOrEqualCache\<close> map the name of a dice to
  an object that maps \<open>k\<close> to a probability. Here the two maps are explicit state: a method
  takes the caches and returns its result with the caches it leaves behind, also when it
  throws. An object, once stored under a name, is never replaced, so the reference that
  \<open>getProbabilityEqualCache\<close> returns is the entry under \<open>this.dice.name\<close>:
  \<open>k in cache\<close> reads the entry, \<open>cache[k] = result\<close> updates it in place.
\<close>

type_synonym table = "int \<rightharpoonup> real"

record Caches =
  probabilityLessOrEqualCache :: "string \<rightharpoonup> table"
  probabilityEqualCache :: "string \<rightharpoonup> table"

definition getProbabilityEqualCache :: "Dice \<Rightarrow> Caches \<Rightarrow> table \<times> Caches" where
  "getProbabilityEqualCache d C =
     (case probabilityEqualCache C (name d) of
        Some cache \<Rightarrow> (cache, C)
      | None \<Rightarrow> (Map.empty, C\<lparr>probabilityEqualCache := (probabilityEqualCache C)(name d \<mapsto> Map.empty)\<rparr>))"

definition getProbabilityLessOrEqualCache :: "Dice \<Rightarrow> Caches \<Rightarrow> table \<times> Caches" where
  "getProbabilityLessOrEqualCache d C =
     (case probabilityLessOrEqualCache C (name d) of
        Some cache \<Rightarrow> (cache, C)
      | None \<Rightarrow> (Map.empty, C\<lparr>probabilityLessOrEqualCache := (probabilityLessOrEqualCache C)(name d \<mapsto> Map.empty)\<rparr>))"

text \<open>\<open>cache[k] = result\<close> on the object stored under the name of the dice.\<close>

definition storeEqual :: "Dice \<Rightarrow> int \<Rightarrow> real \<Rightarrow> Caches \<Rightarrow> Caches" where
  "storeEqual d k v C =
     C\<lparr>probabilityEqualCache := (probabilityEqualCache C)
          (name d \<mapsto> (case probabilityEqualCache C (name d) of Some cache \<Rightarrow> cache | None \<Rightarrow> Map.empty)(k \<mapsto> v))\<rparr>"

definition storeLessOrEqual :: "Dice \<Rightarrow> int \<Rightarrow> real \<Rightarrow> Caches \<Rightarrow> Caches" where
  "storeLessOrEqual d k v C =
     C\<lparr>probabilityLessOrEqualCache := (probabilityLessOrEqualCache C)
          (name d \<mapsto> (case probabilityLessOrEqualCache C (name d) of Some cache \<Rightarrow> cache | None \<Rightarrow> Map.empty)(k \<mapsto> v))\<rparr>"

text \<open>
  \<open>probabilityForResultEqualTo\<close>, \<open>calculateProbabilityForResultEqualTo\<close> with its loop,
  and \<open>probabilityForResultLessOrEqualTo\<close>, as the source has them: with the cache lookups
  and the stores.
\<close>

function cachedProbabilityForResultEqualTo :: "Dice \<Rightarrow> int \<Rightarrow> Caches \<Rightarrow> (string + real) \<times> Caches"
  and cachedCalculateProbabilityForResultEqualTo :: "Dice \<Rightarrow> int \<Rightarrow> Caches \<Rightarrow> (string + real) \<times> Caches"
  and cachedConvolution :: "Dice \<Rightarrow> Dice \<Rightarrow> int \<Rightarrow> int \<Rightarrow> real \<Rightarrow> Caches \<Rightarrow> (string + real) \<times> Caches"
where
  "cachedProbabilityForResultEqualTo d k C =
     (case getProbabilityEqualCache d C of (cache, C1) \<Rightarrow>
       (case cache k of
          Some v \<Rightarrow> (Inr v, C1)
        | None \<Rightarrow>
           (case cachedCalculateProbabilityForResultEqualTo d k C1 of
              (Inl e, C2) \<Rightarrow> (Inl e, C2)
            | (Inr result, C2) \<Rightarrow> (Inr result, storeEqual d k result C2))))"
| "cachedCalculateProbabilityForResultEqualTo d k C =
     (let sds = int_of (sides d);
          cnt = count d;
          md = int_of (modifier d);
          kWithModifier = k;
          kWithoutModifier = k - md
      in if cnt = Num 1 \<and> js_rem kWithoutModifier sds = 0 \<or> kWithoutModifier < 0 then (Inr 0, C)
         else if cnt = Num 1
         then (Inr (1 / (real_of_int sds powi (getExplosionCountForResult d kWithoutModifier + 1))), C)
         else (case withCount d (Num 1) (sides d) (modifier d) of Inl e \<Rightarrow> (Inl e, C) | Inr singleDice \<Rightarrow>
              (case withCount d (js_sub cnt 1) (sides d) (Num 0) of Inl e \<Rightarrow> (Inl e, C) | Inr simplerDice \<Rightarrow>
               cachedConvolution singleDice simplerDice kWithModifier 1 0 C)))"
| "cachedConvolution singleDice simplerDice kWithModifier i result C =
     (if i < kWithModifier
      then (case cachedProbabilityForResultEqualTo singleDice i C of
              (Inl e, C1) \<Rightarrow> (Inl e, C1)
            | (Inr p, C1) \<Rightarrow>
               (case cachedProbabilityForResultEqualTo simplerDice (kWithModifier - i) C1 of
                  (Inl e, C2) \<Rightarrow> (Inl e, C2)
                | (Inr q, C2) \<Rightarrow>
                   cachedConvolution singleDice simplerDice kWithModifier (i + 1) (result + p * q) C2))
      else (Inr result, C))"
  by pat_completeness auto
termination
  apply (relation "inv_image (less_than <*lex*> less_than)
    (\<lambda>x. case x of
       Inl (d, k, C) \<Rightarrow> (3 * nat (int_of (count d)) + 1, 0)
     | Inr (Inl (d, k, C)) \<Rightarrow> (3 * nat (int_of (count d)), 0)
     | Inr (Inr (singleDice, simplerDice, kWithModifier, i, result, C)) \<Rightarrow>
         (3 * max (nat (int_of (count singleDice))) (nat (int_of (count simplerDice))) + 2,
          nat (kWithModifier - i)))")
  subgoal by (intro wf_inv_image wf_lex_prod wf_less_than)
  subgoal by simp
  subgoal for d k C sds cnt md kWithModifier kWithoutModifier singleDice simplerDice
    by (cases "count d")
       (auto simp: withCount_def Dice_new_def require_def split: if_splits)
  subgoal by auto
  subgoal by auto
  subgoal by auto
  done

function cachedProbabilityForResultLessOrEqualTo :: "Dice \<Rightarrow> int \<Rightarrow> Caches \<Rightarrow> (string + real) \<times> Caches" where
  "cachedProbabilityForResultLessOrEqualTo d k C =
     (case getProbabilityLessOrEqualCache d C of (cache, C1) \<Rightarrow>
       (case cache k of
          Some v \<Rightarrow> (Inr v, C1)
        | None \<Rightarrow>
           if k > 0 + int_of (modifier d)
           then (case cachedProbabilityForResultLessOrEqualTo d (k - 1) C1 of
                   (Inl e, C2) \<Rightarrow> (Inl e, C2)
                 | (Inr below, C2) \<Rightarrow>
                    (case cachedProbabilityForResultEqualTo d k C2 of
                       (Inl e, C3) \<Rightarrow> (Inl e, C3)
                     | (Inr equal, C3) \<Rightarrow>
                        (Inr (below + equal), storeLessOrEqual d k (below + equal) C3)))
           else (Inr 0, storeLessOrEqual d k 0 C1)))"
  by pat_completeness auto
termination
  by (relation "measure (\<lambda>(d, k, C). nat (k - int_of (modifier d)))") auto

declare cachedProbabilityForResultEqualTo.simps [simp del]
  cachedCalculateProbabilityForResultEqualTo.simps [simp del]
  cachedConvolution.simps [simp del]
  cachedProbabilityForResultLessOrEqualTo.simps [simp del]

text \<open>
  The caches are consistent when every value stored for a valid Dice is the value that the
  calculator computes; the caches are empty when the program starts. A Dice is transparent
  when \<open>probabilityForResultEqualTo\<close> on consistent caches returns the computed value and
  leaves consistent caches.
\<close>

definition cachesOk :: "Caches \<Rightarrow> bool" where
  "cachesOk C \<longleftrightarrow>
     (\<forall>d t k v. valid d \<and> probabilityEqualCache C (name d) = Some t \<and> t k = Some v
        \<longrightarrow> probabilityForResultEqualTo d k = Inr v)
   \<and> (\<forall>d t k v. valid d \<and> probabilityLessOrEqualCache C (name d) = Some t \<and> t k = Some v
        \<longrightarrow> probabilityForResultLessOrEqualTo d k = Inr v)"

definition emptyCaches :: Caches where
  "emptyCaches = \<lparr>probabilityLessOrEqualCache = Map.empty, probabilityEqualCache = Map.empty\<rparr>"

definition transparent :: "Dice \<Rightarrow> bool" where
  "transparent d \<longleftrightarrow>
     (\<forall>k C. cachesOk C \<longrightarrow>
        fst (cachedProbabilityForResultEqualTo d k C) = probabilityForResultEqualTo d k
        \<and> cachesOk (snd (cachedProbabilityForResultEqualTo d k C)))"

text \<open>The part of the canonical name that \<open>prettyName\<close> appends for the modifier.\<close>

definition modifierSuffix :: "int \<Rightarrow> string" where
  "modifierSuffix m = (if m = 0 then [] else (if 0 < m then ''+'' else ''-'') @ showNat (nat \<bar>m\<bar>))"

section \<open>Lemmas: the constructor and valid dice\<close>

lemmas parse_eval =
  parse_def Dice_new_def require_def prettyName_def parseInt_def trim_def isWhiteSpace_def
  isDelimiter_def isDigit_def digitValue_def digitsValue_def showNat.simps

lemmas valid_eval = valid_def withCount_def Dice_new_def require_def prettyName_def showNat.simps

lemmas engine_eval =
  calculateProbabilityForResultEqualTo.simps getExplosionCountForResult_def js_rem_def
  probabilityForResultEqualTo_def probabilityForResultLessOrEqualTo.simps
  probabilityForResultLessThan_def simulateSumToInfinity_def defaultOptions_def sumLoop.simps

lemma Dice_new_Inr_iff:
  "Dice_new nm cnt sds md = Inr d \<longleftrightarrow>
     (\<exists>c s. cnt = Num c \<and> sds = Num s \<and> inBounds c s
            \<and> d = \<lparr>name = nm, count = cnt, sides = sds, modifier = md\<rparr>)"
  by (cases cnt; cases sds) (auto simp: Dice_new_def require_def inBounds_def)

lemma Dice_new_Inl_iff:
  "Dice_new nm cnt sds md = Inl e \<longleftrightarrow>
     (\<not> js_gt cnt 0 \<and> e = ''Dice count must be positive'')
   \<or> (js_gt cnt 0 \<and> \<not> js_ge sds 2 \<and> e = ''Number of sides of a dice must be at least 2'')
   \<or> (js_gt cnt 0 \<and> js_ge sds 2 \<and> \<not> js_le cnt 16 \<and> e = ''Dice count may not exceed 32'')
   \<or> (js_gt cnt 0 \<and> js_ge sds 2 \<and> js_le cnt 16 \<and> \<not> js_le sds 100
        \<and> e = ''Number of sides may not exceed 100'')"
  by (auto simp: Dice_new_def require_def)

lemma withCount_inBounds:
  "inBounds c s \<Longrightarrow> withCount d (Num c) (Num s) md =
     Inr \<lparr>name = prettyName (Num c) (Num s) md, count = Num c, sides = Num s, modifier = md\<rparr>"
  by (simp add: withCount_def Dice_new_Inr_iff)

lemma valid_iff: "valid d \<longleftrightarrow> (\<exists>c s m. inBounds c s \<and> d = mkDice c s m)"
proof
  assume "valid d"
  then obtain c s where cs: "count d = Num c" "sides d = Num s" "inBounds c s"
    and d: "d = \<lparr>name = prettyName (count d) (sides d) (modifier d), count = count d,
                  sides = sides d, modifier = modifier d\<rparr>"
    and m: "modifier d \<noteq> NaN"
    unfolding valid_def withCount_def Dice_new_Inr_iff by auto
  from m obtain m' where "modifier d = Num m'" by (cases "modifier d") auto
  with cs d have "d = mkDice c s m'" by (simp add: mkDice_def)
  with cs show "\<exists>c s m. inBounds c s \<and> d = mkDice c s m" by blast
next
  assume "\<exists>c s m. inBounds c s \<and> d = mkDice c s m"
  then show "valid d"
    by (auto simp: valid_def mkDice_def withCount_inBounds)
qed

lemma valid_fields:
  assumes "valid d"
  obtains c s m where "inBounds c s" "d = mkDice c s m" "count d = Num c" "sides d = Num s" "modifier d = Num m"
  using assms unfolding valid_iff by (auto simp: mkDice_def)

lemma mkDice_sel [simp]:
  "count (mkDice c s m) = Num c" "sides (mkDice c s m) = Num s" "modifier (mkDice c s m) = Num m"
  by (simp_all add: mkDice_def)

lemma inBounds_pred: "inBounds c s \<Longrightarrow> 2 \<le> c \<Longrightarrow> inBounds (c - 1) s"
  by (simp add: inBounds_def)

lemma inBounds_one: "inBounds c s \<Longrightarrow> inBounds 1 s"
  by (simp add: inBounds_def)

lemma withCount_valid:
  assumes "withCount d cnt sds md = Inr d'" and "md \<noteq> NaN"
  shows "valid d'"
proof -
  from assms(1) have "d' = \<lparr>name = prettyName cnt sds md, count = cnt, sides = sds, modifier = md\<rparr>"
    by (auto simp: withCount_def Dice_new_Inr_iff)
  with assms show ?thesis by (simp add: valid_def withCount_def)
qed

lemma parse_valid:
  assumes "parse nm = Inr d" and "modifier d \<noteq> NaN"
  shows "valid d"
proof -
  from assms(1) obtain cnt sds md where "Dice_new (prettyName cnt sds md) cnt sds md = Inr d"
    by (auto simp: parse_def Let_def require_def split: if_splits)
  then have "withCount d cnt sds md = Inr d" by (simp add: withCount_def)
  moreover from this have "modifier d = md" by (auto simp: withCount_def Dice_new_Inr_iff)
  ultimately show ?thesis using assms(2) by (auto intro: withCount_valid)
qed

section \<open>Lemmas: the probability of a result\<close>

lemma js_rem_eq_0_iff: "js_rem a b = 0 \<longleftrightarrow> b dvd a"
  by (auto simp: js_rem_def mod_eq_0_iff_dvd sgn_if split: if_splits)

lemma getExplosionCountForResult_div:
  "getExplosionCountForResult d r = r div int_of (sides d)"
  unfolding getExplosionCountForResult_def by (rule floor_divide_of_int_eq)

lemma calculate_single:
  "0 < s \<Longrightarrow> calculateProbabilityForResultEqualTo (mkDice 1 s m) k = Inr (singlePmf s (k - m))"
proof (cases "s dvd (k - m) \<or> k - m < 0")
  case True
  then show ?thesis
    by (auto simp: calculateProbabilityForResultEqualTo.simps mkDice_def singlePmf_def js_rem_eq_0_iff)
next
  case False
  moreover assume "0 < s"
  ultimately have "0 \<le> (k - m) div s + 1"
    by (simp add: pos_imp_zdiv_nonneg_iff)
  then show ?thesis using False
    by (simp add: calculateProbabilityForResultEqualTo.simps mkDice_def singlePmf_def js_rem_eq_0_iff
        getExplosionCountForResult_div power_int_def)
qed

lemma convolution_sum:
  assumes p: "\<And>j. calculateProbabilityForResultEqualTo d1 j = Inr (p j)"
    and q: "\<And>j. calculateProbabilityForResultEqualTo d2 j = Inr (q j)"
  shows "convolution d1 d2 k i r = Inr (r + (\<Sum>j = i..k - 1. p j * q (k - j)))"
proof (induction "nat (k - i)" arbitrary: i r)
  case 0
  then show ?case by (simp add: convolution.simps)
next
  case (Suc n)
  then have less: "i < k" and n: "n = nat (k - (i + 1))" by linarith+
  have "{i..k - 1} = insert i {i + 1..k - 1}" using less by auto
  then have split: "(\<Sum>j = i..k - 1. p j * q (k - j)) = p i * q (k - i) + (\<Sum>j = i + 1..k - 1. p j * q (k - j))"
    by simp
  show ?case
    using less by (subst convolution.simps) (simp add: p q Suc.hyps(1)[OF n] split)
qed

lemma calculate_pmfN:
  "inBounds c s \<Longrightarrow> calculateProbabilityForResultEqualTo (mkDice c s m) k = Inr (pmfN (nat (c - 1)) s m k)"
proof (induction "nat (c - 1)" arbitrary: c m k)
  case 0
  then have "c = 1" "0 < s" by (auto simp: inBounds_def)
  then show ?case using 0 by (simp add: calculate_single)
next
  case (Suc n)
  then have c: "2 \<le> c" and n: "n = nat (c - 1 - 1)" by linarith+
  have single: "withCount (mkDice c s m) (Num 1) (Num s) (Num m) = Inr (mkDice 1 s m)"
    using Suc.prems by (simp add: withCount_inBounds inBounds_one mkDice_def)
  have simpler: "withCount (mkDice c s m) (Num (c - 1)) (Num s) (Num 0) = Inr (mkDice (c - 1) s 0)"
    using Suc.prems c by (simp add: withCount_inBounds inBounds_pred mkDice_def)
  have p: "\<And>j. calculateProbabilityForResultEqualTo (mkDice 1 s m) j = Inr (singlePmf s (j - m))"
    using Suc.prems by (simp add: calculate_single inBounds_def)
  have q: "\<And>j. calculateProbabilityForResultEqualTo (mkDice (c - 1) s 0) j = Inr (pmfN n s 0 j)"
    using Suc.hyps(1)[OF n inBounds_pred[OF Suc.prems c]] n by simp
  have fields: "count (mkDice c s m) = Num c" "sides (mkDice c s m) = Num s" "modifier (mkDice c s m) = Num m"
    by (simp_all add: mkDice_def)
  have "nat (c - 1) = Suc n" using Suc.hyps(2) by simp
  then show ?case
    using c by (subst calculateProbabilityForResultEqualTo.simps)
      (simp add: fields single simpler convolution_sum[OF p q])
qed

lemma singlePmf_nonneg: "0 < s \<Longrightarrow> 0 \<le> singlePmf s r"
  by (simp add: singlePmf_def)

lemma pmfN_nonneg: "0 < s \<Longrightarrow> 0 \<le> pmfN n s m k"
  by (induction n arbitrary: m k) (auto simp: singlePmf_nonneg intro!: sum_nonneg)

lemma lessOrEqual_cdfN:
  "inBounds c s \<Longrightarrow> probabilityForResultLessOrEqualTo (mkDice c s m) k = Inr (cdfN (nat (c - 1)) s m k)"
proof (induction "nat (k - m)" arbitrary: k)
  case 0
  then show ?case
    by (subst probabilityForResultLessOrEqualTo.simps) (simp add: mkDice_def cdfN_def)
next
  case (Suc n)
  then have less: "m < k" and n: "n = nat (k - 1 - m)" by linarith+
  have "{m + 1..k} = insert k {m + 1..k - 1}" using less by auto
  then have "cdfN (nat (c - 1)) s m k = cdfN (nat (c - 1)) s m (k - 1) + pmfN (nat (c - 1)) s m k"
    by (simp add: cdfN_def)
  moreover have "modifier (mkDice c s m) = Num m" by (simp add: mkDice_def)
  ultimately show ?case
    using less Suc.prems
    by (subst probabilityForResultLessOrEqualTo.simps)
       (simp add: Suc.hyps(1)[OF n Suc.prems] probabilityForResultEqualTo_def calculate_pmfN)
qed

lemma cdfN_mono: "0 < s \<Longrightarrow> k1 \<le> k2 \<Longrightarrow> cdfN n s m k1 \<le> cdfN n s m k2"
  unfolding cdfN_def by (rule sum_mono2) (auto simp: pmfN_nonneg)

lemma cdfN_nonneg: "0 < s \<Longrightarrow> 0 \<le> cdfN n s m k"
  unfolding cdfN_def by (intro sum_nonneg pmfN_nonneg)

lemma equal_pmfN:
  "inBounds c s \<Longrightarrow> probabilityForResultEqualTo (mkDice c s m) k = Inr (pmfN (nat (c - 1)) s m k)"
  by (simp add: probabilityForResultEqualTo_def calculate_pmfN)

lemma valid_equal_Inr: "valid d \<Longrightarrow> \<exists>p. probabilityForResultEqualTo d k = Inr p"
  by (auto simp: valid_iff equal_pmfN)

lemma lessThan_cdfN:
  "inBounds c s \<Longrightarrow> probabilityForResultLessThan (mkDice c s m) k = Inr (cdfN (nat (c - 1)) s m (k - 1))"
  by (simp add: probabilityForResultLessThan_def lessOrEqual_cdfN)

lemma greaterOrEqual_cdfN:
  "inBounds c s \<Longrightarrow>
     probabilityForResultGreaterOrEqualTo (mkDice c s m) k = Inr (1 - cdfN (nat (c - 1)) s m (k - 1))"
  by (simp add: probabilityForResultGreaterOrEqualTo_def lessThan_cdfN)

lemma greaterThan_cdfN:
  "inBounds c s \<Longrightarrow>
     probabilityForResultGreaterThan (mkDice c s m) k = Inr (1 - cdfN (nat (c - 1)) s m k)"
  by (simp add: probabilityForResultGreaterThan_def lessOrEqual_cdfN)

section \<open>Lemmas: simulateSumToInfinity\<close>

lemma sumLoop_pure:
  "\<exists>n. i < n \<and> stopsAt f opts n \<and> (\<forall>j. i < j \<and> j < n \<longrightarrow> \<not> stopsAt f opts j)
       \<and> sumLoop (\<lambda>i. Inr (f i)) opts i acc (f (i + 1)) = Inr (acc + (\<Sum>j = i + 1..n. f j))"
proof (induction "nat (max (minIterations opts) (maxIterations opts) - i)" arbitrary: i acc)
  case 0
  then have "stopsAt f opts (i + 1)" by (auto simp: stopsAt_def)
  moreover from this have "sumLoop (\<lambda>i. Inr (f i)) opts i acc (f (i + 1)) = Inr (acc + f (i + 1))"
    by (subst sumLoop.simps) (auto simp: stopsAt_def Let_def)
  ultimately show ?case
    by (intro exI[of _ "i + 1"]) auto
next
  case (Suc n)
  show ?case
  proof (cases "stopsAt f opts (i + 1)")
    case True
    then have "sumLoop (\<lambda>i. Inr (f i)) opts i acc (f (i + 1)) = Inr (acc + f (i + 1))"
      by (subst sumLoop.simps) (auto simp: stopsAt_def Let_def)
    with True show ?thesis
      by (intro exI[of _ "i + 1"]) auto
  next
    case False
    from Suc.hyps(2) have n: "n = nat (max (minIterations opts) (maxIterations opts) - (i + 1))"
      by linarith
    from Suc.hyps(1)[OF n, of "acc + f (i + 1)"]
    obtain m where m: "i + 1 < m" "stopsAt f opts m" "\<forall>j. i + 1 < j \<and> j < m \<longrightarrow> \<not> stopsAt f opts j"
      "sumLoop (\<lambda>i. Inr (f i)) opts (i + 1) (acc + f (i + 1)) (f (i + 1 + 1))
         = Inr (acc + f (i + 1) + (\<Sum>j = i + 1 + 1..m. f j))"
      by blast
    have "{i + 1..m} = insert (i + 1) {i + 1 + 1..m}" using m(1) by auto
    then have sum: "(\<Sum>j = i + 1..m. f j) = f (i + 1) + (\<Sum>j = i + 1 + 1..m. f j)" by simp
    have "sumLoop (\<lambda>i. Inr (f i)) opts i acc (f (i + 1)) =
            sumLoop (\<lambda>i. Inr (f i)) opts (i + 1) (acc + f (i + 1)) (f (i + 1 + 1))"
      using False by (subst sumLoop.simps) (auto simp: stopsAt_def Let_def)
    with m(4) sum have "sumLoop (\<lambda>i. Inr (f i)) opts i acc (f (i + 1)) = Inr (acc + (\<Sum>j = i + 1..m. f j))"
      by simp
    moreover have "\<forall>j. i < j \<and> j < m \<longrightarrow> \<not> stopsAt f opts j"
    proof (intro allI impI)
      fix j assume "i < j \<and> j < m"
      then consider "j = i + 1" | "i + 1 < j \<and> j < m" by linarith
      then show "\<not> stopsAt f opts j" using False m(3) by cases auto
    qed
    ultimately show ?thesis using m(1,2)
      by (intro exI[of _ m]) auto
  qed
qed

lemma simulateSumToInfinity_pure:
  "\<exists>n. startIndex opts < n \<and> stopsAt f opts n
       \<and> (\<forall>j. startIndex opts < j \<and> j < n \<longrightarrow> \<not> stopsAt f opts j)
       \<and> simulateSumToInfinity (\<lambda>i. Inr (f i)) opts = Inr (\<Sum>j = startIndex opts..n. f j)"
proof -
  obtain n where n: "startIndex opts < n" "stopsAt f opts n"
      "\<forall>j. startIndex opts < j \<and> j < n \<longrightarrow> \<not> stopsAt f opts j"
      "sumLoop (\<lambda>i. Inr (f i)) opts (startIndex opts) (f (startIndex opts)) (f (startIndex opts + 1))
         = Inr (f (startIndex opts) + (\<Sum>j = startIndex opts + 1..n. f j))"
    using sumLoop_pure[of "startIndex opts" f opts "f (startIndex opts)"] by blast
  have "{startIndex opts..n} = insert (startIndex opts) {startIndex opts + 1..n}" using n(1) by auto
  then have "(\<Sum>j = startIndex opts..n. f j) = f (startIndex opts) + (\<Sum>j = startIndex opts + 1..n. f j)"
    by simp
  with n(4) have "simulateSumToInfinity (\<lambda>i. Inr (f i)) opts = Inr (\<Sum>j = startIndex opts..n. f j)"
    by (simp add: simulateSumToInfinity_def Let_def)
  with n(1,2,3) show ?thesis by blast
qed

lemma simulateSumToInfinity_total:
  "\<exists>v. simulateSumToInfinity (\<lambda>i. Inr (f i)) opts = Inr v"
  using simulateSumToInfinity_pure[of opts f] by blast

section \<open>Lemmas: how much probability the convolution keeps\<close>

lemma int_div_mod_step1:
  fixes s r :: int
  assumes "0 < s" "0 \<le> r" "s dvd (r + 1)"
  shows "r mod s = s - 1 \<and> (r + 1) div s = r div s + 1"
proof -
  from assms(3) obtain q where q: "r + 1 = s * q" by (auto simp: dvd_def)
  then have r: "r = s * (q - 1) + (s - 1)" by (simp add: algebra_simps)
  have "r div s = q - 1" using r assms(1) by (intro int_div_pos_eq[of _ _ _ "s - 1"]) auto
  moreover have "r mod s = s - 1" using r assms(1) by (intro int_mod_pos_eq[of _ _ "q - 1"]) auto
  moreover have "(r + 1) div s = q" using q assms(1) by simp
  ultimately show ?thesis by simp
qed

lemma int_div_mod_step2:
  fixes s r :: int
  assumes "0 < s" "0 \<le> r" "\<not> s dvd (r + 1)"
  shows "(r + 1) mod s = r mod s + 1 \<and> (r + 1) div s = r div s"
proof -
  have t: "0 \<le> r mod s" "r mod s < s" using assms(1) by simp_all
  have r: "r + 1 = s * (r div s) + (r mod s + 1)" by simp
  have "r mod s + 1 \<noteq> s"
  proof
    assume "r mod s + 1 = s"
    moreover have "s * (r div s) + r mod s = r" by simp
    ultimately have "r + 1 = s * (r div s) + s" by linarith
    then have "r + 1 = s * (r div s + 1)" by (simp add: algebra_simps)
    then have "s dvd r + 1" by (metis dvd_triv_left)
    with assms(3) show False by simp
  qed
  with t have lt: "r mod s + 1 < s" by simp
  have "(r + 1) div s = r div s" using r t lt by (intro int_div_pos_eq[of _ _ _ "r mod s + 1"]) auto
  moreover have "(r + 1) mod s = r mod s + 1" using r t lt by (intro int_mod_pos_eq[of _ _ "r div s"]) auto
  ultimately show ?thesis by simp
qed

lemma singlePmf_partial_sum:
  assumes "0 < s"
  shows "(\<Sum>r = 1..int n. singlePmf s r) = 1 - real_of_int (s - int n mod s) / real_of_int s ^ nat (int n div s + 1)"
proof (induction n)
  case 0
  then show ?case using assms by simp
next
  case (Suc n)
  have "{1..int (Suc n)} = insert (int n + 1) {1..int n}" by auto
  then have split: "(\<Sum>r = 1..int (Suc n). singlePmf s r) = singlePmf s (int n + 1) + (\<Sum>r = 1..int n. singlePmf s r)"
    by simp
  have q: "0 \<le> int n div s" using assms by (simp add: pos_imp_zdiv_nonneg_iff)
  show ?case
  proof (cases "s dvd (int n + 1)")
    case True
    from int_div_mod_step1[OF assms _ True]
    have "int n mod s = s - 1" "(1 + int n) div s = int n div s + 1"
      by (simp_all add: add.commute)
    moreover from True have "(1 + int n) mod s = 0" by (simp add: add.commute)
    ultimately show ?thesis
      using True assms q unfolding split Suc.IH
      by (simp add: singlePmf_def nat_add_distrib)
  next
    case False
    from int_div_mod_step2[OF assms _ False]
    have "(1 + int n) mod s = int n mod s + 1" "(1 + int n) div s = int n div s"
      by (simp_all add: add.commute)
    then show ?thesis
      using False assms q unfolding split Suc.IH
      by (simp add: singlePmf_def nat_add_distrib field_simps)
  qed
qed

lemma singlePmf_sum_le:
  assumes "0 < s"
  shows "(\<Sum>r = 1..K. singlePmf s r) \<le> 1"
proof (cases "1 \<le> K")
  case True
  then have "K = int (nat K)" by simp
  then have "(\<Sum>r = 1..K. singlePmf s r)
      = 1 - real_of_int (s - K mod s) / real_of_int s ^ nat (K div s + 1)"
    using singlePmf_partial_sum[OF assms, of "nat K"] by simp
  moreover have "0 \<le> real_of_int (s - K mod s) / real_of_int s ^ nat (K div s + 1)"
    using assms by (intro divide_nonneg_nonneg) (simp_all add: less_imp_le)
  ultimately show ?thesis by simp
next
  case False
  then show ?thesis by simp
qed

lemma singlePmf_sum_tail_le:
  assumes "0 < s"
  shows "(\<Sum>r = int n + 1..K. singlePmf s r)
           \<le> real_of_int (s - int n mod s) / real_of_int s ^ nat (int n div s + 1)"
proof (cases "int n \<le> K")
  case True
  have "{1..K} = {1..int n} \<union> {int n + 1..K}" using True by auto
  moreover have "{1..int n} \<inter> {int n + 1..K} = {}" by auto
  ultimately have "(\<Sum>r = 1..K. singlePmf s r)
      = (\<Sum>r = 1..int n. singlePmf s r) + (\<Sum>r = int n + 1..K. singlePmf s r)"
    by (simp add: sum.union_disjoint)
  with singlePmf_sum_le[OF assms, of K] singlePmf_partial_sum[OF assms, of n]
  show ?thesis by simp
next
  case False
  then have "{int n + 1..K} = {}" by auto
  then show ?thesis using assms by (simp add: less_imp_le)
qed

lemma cdfN_single:
  assumes "0 < s"
  shows "cdfN 0 s m (m + int L) = 1 - real_of_int (s - int L mod s) / real_of_int s ^ nat (int L div s + 1)"
proof -
  have "cdfN 0 s m (m + int L) = (\<Sum>r = 1..int L. singlePmf s r)"
    unfolding cdfN_def pmfN.simps
    by (rule sum.reindex_bij_witness[of _ "\<lambda>r. r + m" "\<lambda>j. j - m"]) auto
  then show ?thesis by (simp add: singlePmf_partial_sum[OF assms])
qed

lemma cdfN_single_five:
  assumes "2 \<le> s"
  shows "31 / 32 \<le> cdfN 0 s m (m + int (nat (5 * s)))"
proof -
  have s: "0 < s" using assms by simp
  have "cdfN 0 s m (m + int (nat (5 * s))) = 1 - real_of_int s / real_of_int s ^ 6"
    using s by (subst cdfN_single[OF s]) simp
  also have "\<dots> = 1 - 1 / real_of_int s ^ 5"
    using s by (simp add: field_simps eval_nat_numeral)
  finally have eq: "cdfN 0 s m (m + int (nat (5 * s))) = 1 - 1 / real_of_int s ^ 5" .
  have "(2::real) ^ 5 \<le> real_of_int s ^ 5"
    using assms by (intro power_mono) simp_all
  then have "1 / real_of_int s ^ 5 \<le> 1 / 2 ^ 5"
    using s by (intro divide_left_mono) simp_all
  with eq show ?thesis by simp
qed

lemma convolution_sum_upper:
  fixes p q :: "int \<Rightarrow> real"
  assumes p: "\<And>i. 0 \<le> p i" and q: "\<And>l. 0 \<le> q l"
  shows "(\<Sum>j = a..K. \<Sum>i = 1..j - 1. p i * q (j - i)) \<le> (\<Sum>i = 1..K. p i) * (\<Sum>l = 1..K. q l)"
proof -
  let ?T = "SIGMA j:{a..K}. {1..j - 1}"
  have "(\<Sum>j = a..K. \<Sum>i = 1..j - 1. p i * q (j - i)) = (\<Sum>(j, i)\<in>?T. p i * q (j - i))"
    by (simp add: sum.Sigma)
  also have "\<dots> = (\<Sum>(i, l)\<in>(\<lambda>(j, i). (i, j - i)) ` ?T. p i * q l)"
    by (subst sum.reindex) (auto simp: inj_on_def case_prod_unfold)
  also have "\<dots> \<le> (\<Sum>(i, l)\<in>{1..K} \<times> {1..K}. p i * q l)"
    by (rule sum_mono2) (auto simp: p q)
  also have "\<dots> = (\<Sum>i = 1..K. p i) * (\<Sum>l = 1..K. q l)"
    by (simp add: sum_product sum.cartesian_product)
  finally show ?thesis .
qed

lemma convolution_sum_lower:
  fixes p q :: "int \<Rightarrow> real"
  assumes p: "\<And>i. 0 \<le> p i" and q: "\<And>l. 0 \<le> q l" and m: "0 \<le> m"
  shows "(\<Sum>i = m + 1..m + L. p i) * (\<Sum>l = 1..K. q l)
           \<le> (\<Sum>j = m + 1..m + L + K. \<Sum>i = 1..j - 1. p i * q (j - i))"
proof -
  let ?T = "SIGMA j:{m + 1..m + L + K}. {1..j - 1}"
  have "(\<Sum>i = m + 1..m + L. p i) * (\<Sum>l = 1..K. q l) = (\<Sum>(i, l)\<in>{m + 1..m + L} \<times> {1..K}. p i * q l)"
    by (simp add: sum_product sum.cartesian_product)
  also have "\<dots> \<le> (\<Sum>(i, l)\<in>(\<lambda>(j, i). (i, j - i)) ` ?T. p i * q l)"
  proof (rule sum_mono2)
    show "finite ((\<lambda>(j, i). (i, j - i)) ` ?T)" by simp
    show "{m + 1..m + L} \<times> {1..K} \<subseteq> (\<lambda>(j, i). (i, j - i)) ` ?T"
    proof
      fix x assume "x \<in> {m + 1..m + L} \<times> {1..K}"
      then obtain i l where x: "x = (i, l)" "m + 1 \<le> i" "i \<le> m + L" "1 \<le> l" "l \<le> K" by auto
      then have "(i + l, i) \<in> ?T" using m by auto
      moreover have "x = (\<lambda>(j, i). (i, j - i)) (i + l, i)" using x by simp
      ultimately show "x \<in> (\<lambda>(j, i). (i, j - i)) ` ?T" by blast
    qed
    show "\<And>b. b \<in> (\<lambda>(j, i). (i, j - i)) ` ?T - {m + 1..m + L} \<times> {1..K} \<Longrightarrow> 0 \<le> (case b of (i, l) \<Rightarrow> p i * q l)"
      by (auto simp: p q)
  qed
  also have "\<dots> = (\<Sum>(j, i)\<in>?T. p i * q (j - i))"
    by (subst sum.reindex) (auto simp: inj_on_def case_prod_unfold)
  also have "\<dots> = (\<Sum>j = m + 1..m + L + K. \<Sum>i = 1..j - 1. p i * q (j - i))"
    by (simp add: sum.Sigma)
  finally show ?thesis .
qed

lemma cdfN_Suc_lower:
  assumes s: "0 < s" and m: "0 \<le> m"
  shows "cdfN 0 s m (m + L) * cdfN n s 0 K \<le> cdfN (Suc n) s m (m + L + K)"
proof -
  have "cdfN 0 s m (m + L) * cdfN n s 0 K
          = (\<Sum>i = m + 1..m + L. singlePmf s (i - m)) * (\<Sum>l = 1..K. pmfN n s 0 l)"
    by (simp add: cdfN_def)
  also have "\<dots> \<le> (\<Sum>j = m + 1..m + L + K. \<Sum>i = 1..j - 1. singlePmf s (i - m) * pmfN n s 0 (j - i))"
    by (rule convolution_sum_lower) (simp_all add: singlePmf_nonneg pmfN_nonneg s m)
  also have "\<dots> = cdfN (Suc n) s m (m + L + K)"
    by (simp add: cdfN_def)
  finally show ?thesis .
qed

lemma cdfN_power:
  assumes s: "0 < s"
  shows "0 \<le> m \<Longrightarrow> cdfN 0 s 0 (int L) ^ Suc n \<le> cdfN n s m (m + int (Suc n) * int L)"
proof (induction n arbitrary: m)
  case 0
  have "cdfN 0 s 0 (int L) = cdfN 0 s m (m + int L)"
    using cdfN_single[OF s, of 0 L] cdfN_single[OF s, of m L] by simp
  then show ?case by simp
next
  case (Suc n)
  have shift: "cdfN 0 s 0 (int L) = cdfN 0 s m (m + int L)"
    using cdfN_single[OF s, of 0 L] cdfN_single[OF s, of m L] by simp
  have "cdfN 0 s 0 (int L) ^ Suc (Suc n) = cdfN 0 s m (m + int L) * cdfN 0 s 0 (int L) ^ Suc n"
    using shift by simp
  also have "\<dots> \<le> cdfN 0 s m (m + int L) * cdfN n s 0 (0 + int (Suc n) * int L)"
    by (intro mult_left_mono Suc.IH cdfN_nonneg s) simp
  also have "\<dots> \<le> cdfN (Suc n) s m (m + int L + int (Suc n) * int L)"
    using cdfN_Suc_lower[OF s Suc.prems, of "int L" n "int (Suc n) * int L"] by simp
  also have "m + int L + int (Suc n) * int L = m + int (Suc (Suc n)) * int L"
    by (simp add: algebra_simps)
  finally show ?case .
qed

lemma cdfN_le_one:
  assumes s: "0 < s"
  shows "cdfN n s 0 K \<le> 1"
proof (induction n arbitrary: K)
  case 0
  show ?case using singlePmf_sum_le[OF s, of K] by (simp add: cdfN_def)
next
  case (Suc n)
  have "cdfN (Suc n) s 0 K = (\<Sum>j = 1..K. \<Sum>i = 1..j - 1. singlePmf s i * pmfN n s 0 (j - i))"
    by (simp add: cdfN_def)
  also have "\<dots> \<le> (\<Sum>i = 1..K. singlePmf s i) * (\<Sum>l = 1..K. pmfN n s 0 l)"
    by (rule convolution_sum_upper) (simp_all add: singlePmf_nonneg pmfN_nonneg s)
  also have "\<dots> \<le> 1 * 1"
    using singlePmf_sum_le[OF s, of K] Suc.IH[of K] cdfN_nonneg[OF s, of n 0 K]
    by (intro mult_mono) (simp_all add: cdfN_def)
  finally show ?case by simp
qed

lemma cdfN_negative_modifier:
  assumes s: "0 < s"
  shows "cdfN (Suc n) s (- int a) K
           \<le> real_of_int (s - int a mod s) / real_of_int s ^ nat (int a div s + 1)"
proof -
  let ?p = "\<lambda>i. singlePmf s (i + int a)"
  let ?bound = "real_of_int (s - int a mod s) / real_of_int s ^ nat (int a div s + 1)"
  have "cdfN (Suc n) s (- int a) K
          = (\<Sum>j = - int a + 1..K. \<Sum>i = 1..j - 1. ?p i * pmfN n s 0 (j - i))"
    by (simp add: cdfN_def)
  also have "\<dots> \<le> (\<Sum>i = 1..K. ?p i) * (\<Sum>l = 1..K. pmfN n s 0 l)"
    by (rule convolution_sum_upper) (simp_all add: singlePmf_nonneg pmfN_nonneg s)
  also have "\<dots> \<le> ?bound * 1"
  proof (rule mult_mono)
    have "(\<Sum>i = 1..K. ?p i) = (\<Sum>r = int a + 1..K + int a. singlePmf s r)"
      by (rule sum.reindex_bij_witness[of _ "\<lambda>r. r - int a" "\<lambda>i. i + int a"]) auto
    also have "\<dots> \<le> ?bound" by (rule singlePmf_sum_tail_le[OF s])
    finally show "(\<Sum>i = 1..K. ?p i) \<le> ?bound" .
    show "(\<Sum>l = 1..K. pmfN n s 0 l) \<le> 1" using cdfN_le_one[OF s, of n K] by (simp add: cdfN_def)
    show "0 \<le> ?bound" using s by (intro divide_nonneg_nonneg) (simp_all add: less_imp_le)
    show "0 \<le> (\<Sum>l = 1..K. pmfN n s 0 l)" by (intro sum_nonneg pmfN_nonneg s)
  qed
  finally show ?thesis by simp
qed

section \<open>Lemmas: calculateMedian\<close>

lemma medianLoop_never_returns:
  assumes below: "\<And>i. \<exists>v. probabilityForResultLessOrEqualTo d i = Inr v \<and> v < 1 / 2"
  shows "medianLoop d i = None"
proof (rule ccontr)
  assume "medianLoop d i \<noteq> None"
  then obtain y where y: "medianLoop d i = Some y" by auto
  have "d \<noteq> d"
  proof (rule medianLoop.raw_induct[where P = "\<lambda>d' i y. d' \<noteq> d", OF _ y], goal_cases)
    case (1 ml d' i' y')
    show ?case
    proof
      assume d': "d' = d"
      from below obtain v where v: "probabilityForResultLessOrEqualTo d i' = Inr v" "v < 1 / 2"
        by blast
      with 1(2) d' have "ml d (i' + 1) = Some y'" by simp
      from 1(1)[OF this] show False by simp
    qed
  qed
  then show False by simp
qed

lemma calculateMedian_negative_modifier:
  assumes "inBounds c s" and "2 \<le> c"
    and "2 * real_of_int (s - int a mod s) < real_of_int s ^ nat (int a div s + 1)"
  shows "calculateMedian (mkDice c s (- int a)) = None"
proof -
  have s: "0 < s" using assms(1) by (simp add: inBounds_def)
  obtain n where n: "nat (c - 1) = Suc n" using assms(2) by (cases "nat (c - 1)") auto
  have "cdfN (nat (c - 1)) s (- int a) i < 1 / 2" for i
  proof -
    have "cdfN (Suc n) s (- int a) i
            \<le> real_of_int (s - int a mod s) / real_of_int s ^ nat (int a div s + 1)"
      by (rule cdfN_negative_modifier[OF s])
    also have "\<dots> < 1 / 2"
      using assms(3) s by (simp add: field_simps)
    finally show ?thesis using n by simp
  qed
  then have "\<exists>v. probabilityForResultLessOrEqualTo (mkDice c s (- int a)) i = Inr v \<and> v < 1 / 2" for i
    by (simp add: lessOrEqual_cdfN[OF assms(1)])
  then show ?thesis
    unfolding calculateMedian_def by (rule medianLoop_never_returns)
qed

lemma calculateMedian_2d6m4:
  "calculateMedian \<lparr>name = ''2d6-4'', count = Num 2, sides = Num 6, modifier = Num (- 4)\<rparr> = None"
proof -
  have "\<lparr>name = ''2d6-4'', count = Num 2, sides = Num 6, modifier = Num (- 4)\<rparr> = mkDice 2 6 (- int 4)"
    by (simp add: mkDice_def prettyName_def showNat.simps)
  moreover have "calculateMedian (mkDice 2 6 (- int 4)) = None"
    by (rule calculateMedian_negative_modifier) (simp_all add: inBounds_def)
  ultimately show ?thesis by simp
qed

lemma lessOrEqual_2d6m4:
  "\<exists>v. probabilityForResultLessOrEqualTo
         \<lparr>name = ''2d6-4'', count = Num 2, sides = Num 6, modifier = Num (- 4)\<rparr> k = Inr v \<and> v \<le> 1 / 3"
proof -
  have "\<lparr>name = ''2d6-4'', count = Num 2, sides = Num 6, modifier = Num (- 4)\<rparr> = mkDice 2 6 (- int 4)"
    by (simp add: mkDice_def prettyName_def showNat.simps)
  moreover have "cdfN (Suc 0) 6 (- int 4) k \<le> 1 / 3"
    using cdfN_negative_modifier[of 6 0 4 k] by simp
  ultimately show ?thesis by (simp add: lessOrEqual_cdfN inBounds_def)
qed

lemma medianLoop_returns:
  assumes b: "inBounds c s"
  shows "i \<le> j \<Longrightarrow> 1 / 2 < cdfN (nat (c - 1)) s m j \<Longrightarrow> \<exists>med. medianLoop (mkDice c s m) i = Some (Inr med)"
proof (induction "nat (j - i)" arbitrary: i)
  case 0
  then have "i = j" by simp
  with 0(3) show ?case
    by (subst medianLoop.simps) (simp add: lessOrEqual_cdfN[OF b] greaterOrEqual_cdfN[OF b])
next
  case (Suc n)
  then have n: "n = nat (j - (i + 1))" and le: "i + 1 \<le> j" by linarith+
  from Suc.hyps(1)[OF n le Suc.prems(2)]
  obtain med where "medianLoop (mkDice c s m) (i + 1) = Some (Inr med)" by blast
  then show ?case
    by (subst medianLoop.simps) (simp add: lessOrEqual_cdfN[OF b] greaterOrEqual_cdfN[OF b])
qed

lemma calculateMedian_returns:
  assumes "valid d" and "count d = Num 1 \<or> 0 \<le> int_of (modifier d)"
  shows "\<exists>med. calculateMedian d = Some (Inr med)"
proof -
  from assms(1) obtain c s m where d: "inBounds c s" "d = mkDice c s m" by (auto simp: valid_iff)
  then have s: "2 \<le> s" "0 < s" and c: "1 \<le> c" "c \<le> 16" by (simp_all add: inBounds_def)
  let ?L = "nat (5 * s)"
  have half: "\<exists>j. 1 + m \<le> j \<and> 1 / 2 < cdfN (nat (c - 1)) s m j"
  proof (cases "c = 1")
    case True
    have "1 / 2 < cdfN 0 s m (m + int ?L)" using cdfN_single_five[OF s(1), of m] by simp
    moreover have "1 + m \<le> m + int ?L" using s by simp
    ultimately have "1 + m \<le> m + int ?L \<and> 1 / 2 < cdfN (nat (c - 1)) s m (m + int ?L)"
      using True s by simp
    then show ?thesis by (rule exI)
  next
    case False
    with assms(2) d have m: "0 \<le> m" by simp
    obtain n where n: "nat (c - 1) = n" "Suc n \<le> 16" using c by simp
    have "(1 / 2 :: real) < (31 / 32) ^ 16" by (simp add: power_divide)
    also have "\<dots> \<le> (31 / 32 :: real) ^ Suc n"
      using n(2) by (intro power_decreasing) simp_all
    also have "\<dots> \<le> cdfN 0 s 0 (int ?L) ^ Suc n"
      using cdfN_single_five[OF s(1), of 0] by (intro power_mono) simp_all
    also have "\<dots> \<le> cdfN n s m (m + int (Suc n) * int ?L)"
      by (rule cdfN_power[OF s(2) m])
    finally have "1 / 2 < cdfN (nat (c - 1)) s m (m + int (Suc n) * int ?L)" using n(1) by simp
    moreover have "1 * 1 \<le> int (Suc n) * int ?L"
      using s by (intro mult_mono) simp_all
    then have "1 + m \<le> m + int (Suc n) * int ?L" by simp
    ultimately show ?thesis by blast
  qed
  then obtain j where "1 + m \<le> j" "1 / 2 < cdfN (nat (c - 1)) s m j" by blast
  from medianLoop_returns[OF d(1) this] show ?thesis
    by (simp add: calculateMedian_def d(2))
qed

lemma medianLoop_value:
  assumes "valid d" and "medianLoop d i0 = Some (Inr med)"
  shows "\<exists>i. i0 \<le> i \<and> medianAt d i med \<and> (\<forall>j med'. i0 \<le> j \<and> j < i \<longrightarrow> \<not> medianAt d j med')"
proof -
  let ?P = "\<lambda>d i0 (y :: string + real). valid d \<longrightarrow> (\<forall>med. y = Inr med \<longrightarrow>
     (\<exists>i. i0 \<le> i \<and> medianAt d i med \<and> (\<forall>j med'. i0 \<le> j \<and> j < i \<longrightarrow> \<not> medianAt d j med')))"
  have "?P d i0 (Inr med)"
  proof (rule medianLoop.raw_induct[where P = ?P, OF _ assms(2)], goal_cases)
    case (1 ml d' i' y')
    show ?case
    proof (intro impI allI)
      fix med' assume v: "valid d'" and y': "y' = Inr med'"
      from v obtain c s m where d': "inBounds c s" "d' = mkDice c s m" by (auto simp: valid_iff)
      let ?le = "cdfN (nat (c - 1)) s m i'" and ?ge = "1 - cdfN (nat (c - 1)) s m (i' - 1)"
      have le: "probabilityForResultLessOrEqualTo d' i' = Inr ?le"
        and ge: "probabilityForResultGreaterOrEqualTo d' i' = Inr ?ge"
        unfolding d' by (simp_all add: lessOrEqual_cdfN[OF d'(1)] greaterOrEqual_cdfN[OF d'(1)])
      have body: "(if 0.5 \<le> ?le
                   then if 0.5 \<le> ?ge then Some (Inr (real_of_int i'))
                        else if 0.5 < ?le then Some (Inr (real_of_int i' - 0.5))
                        else ml d' (i' + 1)
                   else if 0.5 < ?le then Some (Inr (real_of_int i' - 0.5))
                   else ml d' (i' + 1)) = Some (Inr med')"
        using 1(2) unfolding le ge y' sum.case .
      have at: "medianAt d' i' x \<longleftrightarrow>
                  (x = real_of_int i' \<and> 1 / 2 \<le> ?le \<and> 1 / 2 \<le> ?ge
                   \<or> x = real_of_int i' - 1 / 2 \<and> 1 / 2 < ?le \<and> ?ge < 1 / 2)" for x
        by (simp add: medianAt_def le ge)
      consider (both) "1 / 2 \<le> ?le" "1 / 2 \<le> ?ge"
        | (above) "1 / 2 < ?le" "?ge < 1 / 2"
        | (neither) "\<not> (1 / 2 \<le> ?le \<and> 1 / 2 \<le> ?ge)" "\<not> 1 / 2 < ?le"
        by linarith
      then consider
          (here) "medianAt d' i' med'"
        | (later) "ml d' (i' + 1) = Some y'" "\<forall>med''. \<not> medianAt d' i' med''"
      proof cases
        case both
        with body have "med' = real_of_int i'" by simp
        with both that(1) show ?thesis by (simp add: at)
      next
        case above
        with body have "med' = real_of_int i' - 1 / 2" by simp
        with above that(1) show ?thesis by (simp add: at)
      next
        case neither
        with body have "ml d' (i' + 1) = Some y'" by (simp add: y' split: if_splits)
        moreover from neither have "\<forall>med''. \<not> medianAt d' i' med''" by (auto simp: at)
        ultimately show ?thesis by (rule that(2))
      qed
      then show "\<exists>i. i' \<le> i \<and> medianAt d' i med' \<and> (\<forall>j med''. i' \<le> j \<and> j < i \<longrightarrow> \<not> medianAt d' j med'')"
      proof cases
        case here
        then show ?thesis by (intro exI[of _ i']) auto
      next
        case later
        from 1(1)[OF later(1)] v y' obtain i where i: "i' + 1 \<le> i" "medianAt d' i med'"
          "\<forall>j med''. i' + 1 \<le> j \<and> j < i \<longrightarrow> \<not> medianAt d' j med''" by blast
        have "\<not> medianAt d' j med''" if "i' \<le> j \<and> j < i" for j med''
        proof (cases "j = i'")
          case True
          then show ?thesis using later(2) by simp
        next
          case False
          with that have "i' + 1 \<le> j \<and> j < i" by simp
          with i(3) show ?thesis by blast
        qed
        with i(1,2) show ?thesis by (intro exI[of _ i]) auto
      qed
    qed
  qed
  with assms(1) show ?thesis by simp
qed

lemma calculateMedian_returns_median:
  assumes "valid d" and "count d = Num 1 \<or> 0 \<le> int_of (modifier d)"
  shows "\<exists>med i. calculateMedian d = Some (Inr med) \<and> int_of (modifier d) < i \<and> medianAt d i med
           \<and> (\<forall>j med'. int_of (modifier d) < j \<and> j < i \<longrightarrow> \<not> medianAt d j med')"
proof -
  from calculateMedian_returns[OF assms] obtain med where med: "calculateMedian d = Some (Inr med)"
    by blast
  then have "medianLoop d (1 + int_of (modifier d)) = Some (Inr med)"
    by (simp add: calculateMedian_def)
  from medianLoop_value[OF assms(1) this] obtain i where
    "1 + int_of (modifier d) \<le> i" "medianAt d i med"
    "\<forall>j med'. 1 + int_of (modifier d) \<le> j \<and> j < i \<longrightarrow> \<not> medianAt d j med'"
    by blast
  with med show ?thesis by (intro exI[of _ med] exI[of _ i]) auto
qed

lemma medianLoop_returns_number:
  assumes "valid d" and "medianLoop d i = Some y"
  shows "\<exists>med. y = Inr med"
proof -
  have "valid d \<longrightarrow> (\<exists>med. y = Inr med)"
  proof (rule medianLoop.raw_induct[where P = "\<lambda>d i y. valid d \<longrightarrow> (\<exists>med. y = Inr med)", OF _ assms(2)], goal_cases)
    case (1 ml d' i' y')
    show ?case
    proof
      assume "valid d'"
      then obtain c s m where d': "inBounds c s" "d' = mkDice c s m" by (auto simp: valid_iff)
      from 1(2) have "y' = Inr (real_of_int i') \<or> y' = Inr (real_of_int i' - 0.5) \<or> ml d' (i' + 1) = Some y'"
        unfolding d' by (simp add: lessOrEqual_cdfN[OF d'(1)] greaterOrEqual_cdfN[OF d'(1)] split: if_splits)
      with 1(1) \<open>valid d'\<close> show "\<exists>med. y' = Inr med" by blast
    qed
  qed
  with assms(1) show ?thesis by simp
qed

section \<open>Lemmas: the calculator throws nothing on valid dice\<close>

lemma calculateExpectedValue_total:
  assumes "inBounds c s"
  shows "\<exists>v. calculateExpectedValue (mkDice c s m) = Inr v"
proof -
  have s: "0 < s" using assms by (simp add: inBounds_def)
  have single: "\<exists>v. calculateExpectedValue (mkDice 1 s m') = Inr v" for m'
  proof -
    have "calculateExpectedValue (mkDice 1 s m') =
            simulateSumToInfinity (\<lambda>i. Inr (real_of_int i * singlePmf s (i - m')))
              (defaultOptions\<lparr>startIndex := m'\<rparr>)"
      by (subst calculateExpectedValue.simps)
         (simp add: probabilityForResultEqualTo_def calculate_single[OF s])
    then show ?thesis using simulateSumToInfinity_total by metis
  qed
  show ?thesis
  proof (cases "c = 1")
    case True
    then show ?thesis using single by simp
  next
    case False
    obtain ev where "calculateExpectedValue (mkDice 1 s 0) = Inr ev" using single by blast
    moreover have "withCount (mkDice c s m) (Num 1) (Num s) (Num 0) = Inr (mkDice 1 s 0)"
      using assms by (simp add: withCount_inBounds inBounds_one mkDice_def)
    ultimately show ?thesis
      using False by (subst calculateExpectedValue.simps) simp
  qed
qed

lemma calculateVariance_total:
  assumes "inBounds c s"
  shows "\<exists>v. calculateVariance (mkDice c s m) expect = Inr v"
proof -
  have s: "0 < s" using assms by (simp add: inBounds_def)
  have "calculateVariance (mkDice 1 s m) expect =
          simulateSumToInfinity (\<lambda>i. Inr ((expect - real_of_int i)\<^sup>2 * singlePmf s (i - m)))
            (defaultOptions\<lparr>startIndex := m\<rparr>)"
    by (subst calculateVariance.simps)
       (simp add: probabilityForResultEqualTo_def calculate_single[OF s])
  then obtain v where v: "calculateVariance (mkDice 1 s m) expect = Inr v"
    using simulateSumToInfinity_total by metis
  show ?thesis
  proof (cases "c = 1")
    case True
    then show ?thesis using v by simp
  next
    case False
    have "withCount (mkDice c s m) (Num 1) (Num s) (Num m) = Inr (mkDice 1 s m)"
      using assms by (simp add: withCount_inBounds inBounds_one mkDice_def)
    then show ?thesis
      using False v by (subst calculateVariance.simps) simp
  qed
qed

lemma probabilityMapFrom_total:
  "inBounds c s \<Longrightarrow> \<exists>ps. probabilityMapFrom (mkDice c s m) ks = Inr ps"
  by (induction ks) (auto simp: greaterOrEqual_cdfN)

lemma probabilityToWinAgainst_total:
  assumes "inBounds c s" and "inBounds c' s'"
  shows "\<exists>v. probabilityToWinAgainst (mkDice c s m) (mkDice c' s' m') = Inr v"
proof -
  have "probabilityToWinAgainst (mkDice c s m) (mkDice c' s' m') =
          simulateSumToInfinity
            (\<lambda>i. Inr (pmfN (nat (c - 1)) s m i * cdfN (nat (c' - 1)) s' m' (i - 1)))
            (defaultOptions\<lparr>startIndex := min m m', minIterations := s * c\<rparr>)"
    using assms by (simp add: probabilityToWinAgainst_def equal_pmfN lessThan_cdfN)
  then show ?thesis using simulateSumToInfinity_total by metis
qed

lemma calculateWinProbabilityMap_total:
  assumes "valid d" and "\<forall>other\<in>set ds. valid other"
  shows "\<exists>wins. calculateWinProbabilityMap d ds = Inr wins"
  using assms(2)
proof (induction ds)
  case Nil
  then show ?case by simp
next
  case (Cons other ds)
  then obtain wins where "calculateWinProbabilityMap d ds = Inr wins" by auto
  moreover from Cons.prems assms(1) obtain v where "probabilityToWinAgainst d other = Inr v"
    using probabilityToWinAgainst_total by (auto simp: valid_iff) blast
  ultimately show ?case by simp
qed

text \<open>The variance: one die, several dice, and when the sum is positive.\<close>

lemma calculateVariance_single:
  assumes "0 < s"
  shows "calculateVariance (mkDice 1 s m) expect =
           simulateSumToInfinity (\<lambda>i. Inr (varianceTerm s m expect i)) (defaultOptions\<lparr>startIndex := m\<rparr>)"
  by (subst calculateVariance.simps)
     (simp add: probabilityForResultEqualTo_def calculate_single[OF assms] varianceTerm_def)

lemma calculateVariance_several:
  assumes "inBounds c s" and "c \<noteq> 1"
  shows "calculateVariance (mkDice c s m) expect = calculateVariance (mkDice 1 s m) expect"
proof -
  have "withCount (mkDice c s m) (Num 1) (Num s) (Num m) = Inr (mkDice 1 s m)"
    using assms(1) by (simp add: withCount_inBounds inBounds_one mkDice_def)
  then show ?thesis
    using assms(2) by (subst calculateVariance.simps) simp
qed

lemma varianceTerm_nonneg: "0 < s \<Longrightarrow> 0 \<le> varianceTerm s m expect i"
  by (simp add: varianceTerm_def singlePmf_nonneg)

lemma singlePmf_pos: "0 < s \<Longrightarrow> 0 \<le> r \<Longrightarrow> \<not> s dvd r \<Longrightarrow> 0 < singlePmf s r"
  by (simp add: singlePmf_def)

lemma varianceTerm_sum_pos:
  assumes "2 \<le> s" and "m + 3 \<le> n"
  shows "0 < (\<Sum>j = m..n. varianceTerm s m expect j)"
proof -
  have s: "0 < s" using assms(1) by simp
  define k :: int where "k = (if s = 2 then 3 else 2)"
  have k: "1 < k" "k \<le> 3" "\<not> s dvd k"
    using assms(1) by (auto simp: k_def dest: zdvd_imp_le)
  have one: "\<not> s dvd 1" using assms(1) by (auto dest: zdvd_imp_le)
  have le: "varianceTerm s m expect j \<le> (\<Sum>j = m..n. varianceTerm s m expect j)"
    if "j \<in> {m..n}" for j
    using that by (intro member_le_sum) (auto simp: varianceTerm_nonneg[OF s])
  show ?thesis
  proof (cases "expect = real_of_int (m + 1)")
    case False
    then have "0 < varianceTerm s m expect (m + 1)"
      using singlePmf_pos[OF s _ one] by (simp add: varianceTerm_def)
    moreover have "m + 1 \<in> {m..n}" using assms(2) by simp
    ultimately show ?thesis using le by fastforce
  next
    case True
    then have "expect - real_of_int (m + k) \<noteq> 0" using k(1) by simp
    moreover have "0 < singlePmf s (m + k - m)" using singlePmf_pos[OF s _ k(3)] k(1) by simp
    ultimately have "0 < varianceTerm s m expect (m + k)"
      unfolding varianceTerm_def by (intro mult_pos_pos) auto
    moreover have "m + k \<in> {m..n}" using assms(2) k by simp
    ultimately show ?thesis using le by fastforce
  qed
qed

section \<open>Lemmas: canonical names and the caches\<close>

lemma digit_char: "k < 10 \<Longrightarrow> digitValue (''0123456789'' ! k) = Some k"
proof -
  assume "k < 10"
  then have "k \<in> {0, 1, 2, 3, 4, 5, 6, 7, 8, 9}" by auto
  then show ?thesis by (auto simp: digitValue_def)
qed

lemma showNat_isDigit: "c \<in> set (showNat n) \<Longrightarrow> isDigit 10 c"
proof (induction n rule: showNat.induct)
  case (1 n)
  show ?case
  proof (cases "n < 10")
    case True
    with 1(2) have "c = ''0123456789'' ! n" by (simp add: showNat.simps[of n])
    with True show ?thesis by (simp add: isDigit_def digit_char)
  next
    case False
    with 1(2) have "c \<in> set (showNat (n div 10)) \<or> c = ''0123456789'' ! (n mod 10)"
      by (auto simp: showNat.simps[of n])
    then show ?thesis
      using 1(1)[OF False] by (auto simp: isDigit_def digit_char)
  qed
qed

lemma digitsValue_snoc:
  "digitsValue radix (z @ [c]) = digitsValue radix z * radix + (case digitValue c of Some v \<Rightarrow> v | None \<Rightarrow> 0)"
  by (simp add: digitsValue_def)

lemma digitsValue_showNat: "digitsValue 10 (showNat n) = n"
proof (induction n rule: showNat.induct)
  case (1 n)
  show ?case
  proof (cases "n < 10")
    case True
    then show ?thesis by (simp add: showNat.simps[of n] digitsValue_def digit_char)
  next
    case False
    then show ?thesis
      using 1[OF False] by (simp add: showNat.simps[of n] digitsValue_snoc digit_char)
  qed
qed

lemma showNat_inj: "showNat a = showNat b \<Longrightarrow> a = b"
  by (metis digitsValue_showNat)

lemma showNat_takeWhile:
  assumes "rest = [] \<or> \<not> isDigit 10 (hd rest)"
  shows "takeWhile (isDigit 10) (showNat n @ rest) = showNat n"
proof (cases rest)
  case Nil
  then show ?thesis by (simp add: showNat_isDigit)
next
  case (Cons x xs)
  with assms have "\<not> isDigit 10 x" by simp
  then show ?thesis
    unfolding Cons by (simp add: takeWhile_tail showNat_isDigit)
qed

lemma showNat_append_inj:
  assumes "showNat a @ r = showNat b @ r'"
    and "r = [] \<or> \<not> isDigit 10 (hd r)" and "r' = [] \<or> \<not> isDigit 10 (hd r')"
  shows "a = b \<and> r = r'"
proof -
  have "showNat a = showNat b"
    using showNat_takeWhile[OF assms(2), of a] showNat_takeWhile[OF assms(3), of b] assms(1) by simp
  with assms(1) show ?thesis by (simp add: showNat_inj)
qed

lemma prettyName_eq:
  "0 \<le> c \<Longrightarrow> 0 \<le> s \<Longrightarrow>
     prettyName (Num c) (Num s) (Num m) = showNat (nat c) @ CHR ''d'' # showNat (nat s) @ modifierSuffix m"
  by (simp add: prettyName_def modifierSuffix_def)

lemma modifierSuffix_inj: "modifierSuffix m = modifierSuffix m' \<Longrightarrow> m = m'"
  by (auto simp: modifierSuffix_def dest!: showNat_inj split: if_splits)

lemma modifierSuffix_head: "modifierSuffix m = [] \<or> \<not> isDigit 10 (hd (modifierSuffix m))"
  by (simp add: modifierSuffix_def isDigit_def digitValue_def)

lemma prettyName_inj:
  assumes "0 \<le> c" "0 \<le> s" "0 \<le> c'" "0 \<le> s'"
    and "prettyName (Num c) (Num s) (Num m) = prettyName (Num c') (Num s') (Num m')"
  shows "c = c' \<and> s = s' \<and> m = m'"
proof -
  from assms have eq: "showNat (nat c) @ CHR ''d'' # showNat (nat s) @ modifierSuffix m
      = showNat (nat c') @ CHR ''d'' # showNat (nat s') @ modifierSuffix m'"
    by (simp add: prettyName_eq)
  have d: "\<not> isDigit 10 CHR ''d''" by (simp add: isDigit_def digitValue_def)
  from showNat_append_inj[OF eq] d
  have c: "nat c = nat c'" and rest: "showNat (nat s) @ modifierSuffix m = showNat (nat s') @ modifierSuffix m'"
    by simp_all
  from showNat_append_inj[OF rest modifierSuffix_head modifierSuffix_head]
  have "nat s = nat s'" "modifierSuffix m = modifierSuffix m'" by simp_all
  with c assms(1-4) show ?thesis by (auto dest: modifierSuffix_inj)
qed

lemma valid_name_inj:
  assumes "valid d" "valid d'" "name d = name d'"
  shows "d = d'"
proof -
  from assms(1) obtain c s m where d: "inBounds c s" "d = mkDice c s m" by (auto simp: valid_iff)
  from assms(2) obtain c' s' m' where d': "inBounds c' s'" "d' = mkDice c' s' m'" by (auto simp: valid_iff)
  from assms(3) have "prettyName (Num c) (Num s) (Num m) = prettyName (Num c') (Num s') (Num m')"
    by (simp add: d d' mkDice_def)
  with prettyName_inj[of c s c' s' m m'] d(1) d'(1) have "c = c' \<and> s = s' \<and> m = m'"
    by (simp add: inBounds_def)
  with d d' show ?thesis by simp
qed

lemma cachesOk_empty: "cachesOk emptyCaches"
  by (simp add: cachesOk_def emptyCaches_def)

lemma getProbabilityEqualCache_ok:
  assumes "cachesOk C" and "getProbabilityEqualCache d C = (t, C1)"
  shows "cachesOk C1" and "valid d \<Longrightarrow> t k = Some v \<Longrightarrow> probabilityForResultEqualTo d k = Inr v"
  using assms
  by (auto simp: getProbabilityEqualCache_def cachesOk_def split: option.splits if_splits)

lemma getProbabilityLessOrEqualCache_ok:
  assumes "cachesOk C" and "getProbabilityLessOrEqualCache d C = (t, C1)"
  shows "cachesOk C1" and "valid d \<Longrightarrow> t k = Some v \<Longrightarrow> probabilityForResultLessOrEqualTo d k = Inr v"
  using assms
  by (auto simp: getProbabilityLessOrEqualCache_def cachesOk_def split: option.splits if_splits)

lemma storeEqual_ok:
  assumes "cachesOk C" and "valid d" and "probabilityForResultEqualTo d k = Inr v"
  shows "cachesOk (storeEqual d k v C)"
  unfolding cachesOk_def
proof (intro conjI allI impI)
  fix d' t k' v'
  assume a: "valid d' \<and> probabilityEqualCache (storeEqual d k v C) (name d') = Some t \<and> t k' = Some v'"
  show "probabilityForResultEqualTo d' k' = Inr v'"
  proof (cases "name d' = name d")
    case True
    with a assms(2) have d': "d' = d" by (auto intro: valid_name_inj)
    show ?thesis
    proof (cases "k' = k")
      case True
      with a d' assms(3) show ?thesis by (auto simp: storeEqual_def)
    next
      case False
      with a d' assms(1,2) show ?thesis
        by (auto simp: storeEqual_def cachesOk_def split: option.splits)
    qed
  next
    case False
    with a assms(1) show ?thesis by (auto simp: storeEqual_def cachesOk_def)
  qed
next
  fix d' t k' v'
  assume "valid d' \<and> probabilityLessOrEqualCache (storeEqual d k v C) (name d') = Some t \<and> t k' = Some v'"
  with assms(1) show "probabilityForResultLessOrEqualTo d' k' = Inr v'"
    by (auto simp: storeEqual_def cachesOk_def)
qed

lemma storeLessOrEqual_ok:
  assumes "cachesOk C" and "valid d" and "probabilityForResultLessOrEqualTo d k = Inr v"
  shows "cachesOk (storeLessOrEqual d k v C)"
  unfolding cachesOk_def
proof (intro conjI allI impI)
  fix d' t k' v'
  assume a: "valid d' \<and> probabilityLessOrEqualCache (storeLessOrEqual d k v C) (name d') = Some t \<and> t k' = Some v'"
  show "probabilityForResultLessOrEqualTo d' k' = Inr v'"
  proof (cases "name d' = name d")
    case True
    with a assms(2) have d': "d' = d" by (auto intro: valid_name_inj)
    show ?thesis
    proof (cases "k' = k")
      case True
      with a d' assms(3) show ?thesis by (auto simp: storeLessOrEqual_def)
    next
      case False
      with a d' assms(1,2) show ?thesis
        by (auto simp: storeLessOrEqual_def cachesOk_def split: option.splits)
    qed
  next
    case False
    with a assms(1) show ?thesis by (auto simp: storeLessOrEqual_def cachesOk_def)
  qed
next
  fix d' t k' v'
  assume "valid d' \<and> probabilityEqualCache (storeLessOrEqual d k v C) (name d') = Some t \<and> t k' = Some v'"
  with assms(1) show "probabilityForResultEqualTo d' k' = Inr v'"
    by (auto simp: storeLessOrEqual_def cachesOk_def)
qed

lemma cachedConvolution_ok:
  assumes d1: "valid d1" "transparent d1" and d2: "valid d2" "transparent d2"
  shows "cachesOk C \<Longrightarrow>
           fst (cachedConvolution d1 d2 k i r C) = convolution d1 d2 k i r
           \<and> cachesOk (snd (cachedConvolution d1 d2 k i r C))"
proof (induction "nat (k - i)" arbitrary: i r C)
  case 0
  then show ?case by (simp add: cachedConvolution.simps convolution.simps)
next
  case (Suc n)
  then have less: "i < k" and n: "n = nat (k - (i + 1))" by linarith+
  obtain p where p: "calculateProbabilityForResultEqualTo d1 i = Inr p"
    using valid_equal_Inr[OF d1(1)] by (auto simp: probabilityForResultEqualTo_def)
  obtain q where q: "calculateProbabilityForResultEqualTo d2 (k - i) = Inr q"
    using valid_equal_Inr[OF d2(1)] by (auto simp: probabilityForResultEqualTo_def)
  obtain x C1 where c1: "cachedProbabilityForResultEqualTo d1 i C = (x, C1)" by fastforce
  with d1(2) Suc.prems p have x: "x = Inr p" and ok1: "cachesOk C1"
    by (auto simp: transparent_def probabilityForResultEqualTo_def dest!: spec[of _ i] spec[of _ C])
  obtain y C2 where c2: "cachedProbabilityForResultEqualTo d2 (k - i) C1 = (y, C2)" by fastforce
  with d2(2) ok1 q have y: "y = Inr q" and ok2: "cachesOk C2"
    by (auto simp: transparent_def probabilityForResultEqualTo_def dest!: spec[of _ "k - i"] spec[of _ C1])
  have "cachedConvolution d1 d2 k i r C = cachedConvolution d1 d2 k (i + 1) (r + p * q) C2"
    using less by (subst cachedConvolution.simps) (simp add: c1 x c2 y)
  moreover have "convolution d1 d2 k i r = convolution d1 d2 k (i + 1) (r + p * q)"
    using less by (subst convolution.simps) (simp add: p q)
  ultimately show ?case using Suc.hyps(1)[OF n ok2] by simp
qed

lemma transparent_from_calculate:
  assumes "valid d"
    and calc: "\<And>k C. cachesOk C \<Longrightarrow>
        fst (cachedCalculateProbabilityForResultEqualTo d k C) = calculateProbabilityForResultEqualTo d k
        \<and> cachesOk (snd (cachedCalculateProbabilityForResultEqualTo d k C))"
  shows "transparent d"
  unfolding transparent_def
proof (intro allI impI)
  fix k C assume ok: "cachesOk C"
  obtain t C1 where g: "getProbabilityEqualCache d C = (t, C1)" by fastforce
  note ok1 = getProbabilityEqualCache_ok(1)[OF ok g]
  show "fst (cachedProbabilityForResultEqualTo d k C) = probabilityForResultEqualTo d k
        \<and> cachesOk (snd (cachedProbabilityForResultEqualTo d k C))"
  proof (cases "t k")
    case (Some v)
    with getProbabilityEqualCache_ok(2)[OF ok g assms(1), of k v] ok1 show ?thesis
      by (subst (1 2) cachedProbabilityForResultEqualTo.simps) (simp add: g)
  next
    case None
    obtain p where p: "probabilityForResultEqualTo d k = Inr p"
      using valid_equal_Inr[OF assms(1)] by blast
    obtain x C2 where c: "cachedCalculateProbabilityForResultEqualTo d k C1 = (x, C2)" by fastforce
    with calc[OF ok1, of k] p have x: "x = Inr p" and ok2: "cachesOk C2"
      by (auto simp: probabilityForResultEqualTo_def)
    from storeEqual_ok[OF ok2 assms(1) p] p show ?thesis
      by (subst (1 2) cachedProbabilityForResultEqualTo.simps) (simp add: g None c x)
  qed
qed

lemma transparent_single:
  assumes "inBounds 1 s"
  shows "transparent (mkDice 1 s m)"
proof (rule transparent_from_calculate)
  show "valid (mkDice 1 s m)" using assms by (auto simp: valid_iff)
  fix k C
  have "cachedCalculateProbabilityForResultEqualTo (mkDice 1 s m) k C
          = (calculateProbabilityForResultEqualTo (mkDice 1 s m) k, C)"
    by (subst cachedCalculateProbabilityForResultEqualTo.simps,
        subst calculateProbabilityForResultEqualTo.simps) (simp add: Let_def)
  then show "cachesOk C \<Longrightarrow>
      fst (cachedCalculateProbabilityForResultEqualTo (mkDice 1 s m) k C)
        = calculateProbabilityForResultEqualTo (mkDice 1 s m) k
      \<and> cachesOk (snd (cachedCalculateProbabilityForResultEqualTo (mkDice 1 s m) k C))"
    by simp
qed

lemma transparent_valid:
  "inBounds c s \<Longrightarrow> transparent (mkDice c s m)"
proof (induction "nat (c - 1)" arbitrary: c m)
  case 0
  then have "c = 1" by (auto simp: inBounds_def)
  with 0 show ?case by (simp add: transparent_single)
next
  case (Suc n)
  then have c: "2 \<le> c" and n: "n = nat (c - 1 - 1)" by linarith+
  have b1: "inBounds 1 s" and bp: "inBounds (c - 1) s"
    using Suc.prems c by (simp_all add: inBounds_def)
  have single: "withCount (mkDice c s m) (Num 1) (Num s) (Num m) = Inr (mkDice 1 s m)"
    by (simp add: withCount_inBounds b1 mkDice_def)
  have simpler: "withCount (mkDice c s m) (Num (c - 1)) (Num s) (Num 0) = Inr (mkDice (c - 1) s 0)"
    by (simp add: withCount_inBounds bp mkDice_def)
  have t1: "transparent (mkDice 1 s m)" by (rule transparent_single[OF b1])
  have t2: "transparent (mkDice (c - 1) s 0)" by (rule Suc.hyps(1)[OF n bp])
  have v1: "valid (mkDice 1 s m)" and v2: "valid (mkDice (c - 1) s 0)"
    using b1 bp by (auto simp: valid_iff)
  show ?case
  proof (rule transparent_from_calculate)
    show "valid (mkDice c s m)" using Suc.prems by (auto simp: valid_iff)
    fix k C assume ok: "cachesOk C"
    show "fst (cachedCalculateProbabilityForResultEqualTo (mkDice c s m) k C)
            = calculateProbabilityForResultEqualTo (mkDice c s m) k
          \<and> cachesOk (snd (cachedCalculateProbabilityForResultEqualTo (mkDice c s m) k C))"
    proof (cases "k - m < 0")
      case True
      then show ?thesis
        using ok by (subst (1 2) cachedCalculateProbabilityForResultEqualTo.simps,
            subst calculateProbabilityForResultEqualTo.simps) (simp add: Let_def)
    next
      case False
      have "cachedCalculateProbabilityForResultEqualTo (mkDice c s m) k C
              = cachedConvolution (mkDice 1 s m) (mkDice (c - 1) s 0) k 1 0 C"
        using False c by (subst cachedCalculateProbabilityForResultEqualTo.simps)
          (simp add: Let_def single simpler)
      moreover have "calculateProbabilityForResultEqualTo (mkDice c s m) k
              = convolution (mkDice 1 s m) (mkDice (c - 1) s 0) k 1 0"
        using False c by (subst calculateProbabilityForResultEqualTo.simps)
          (simp add: Let_def single simpler)
      ultimately show ?thesis
        using cachedConvolution_ok[OF v1 t1 v2 t2 ok, of k 1 0] by simp
    qed
  qed
qed

theorem cachedProbabilityForResultEqualTo_transparent:
  assumes "valid d" and "cachesOk C"
  shows "fst (cachedProbabilityForResultEqualTo d k C) = probabilityForResultEqualTo d k
       \<and> cachesOk (snd (cachedProbabilityForResultEqualTo d k C))"
  using assms transparent_valid by (auto simp: valid_iff transparent_def)

theorem cachedProbabilityForResultLessOrEqualTo_transparent:
  assumes "valid d"
  shows "cachesOk C \<Longrightarrow>
          fst (cachedProbabilityForResultLessOrEqualTo d k C) = probabilityForResultLessOrEqualTo d k
          \<and> cachesOk (snd (cachedProbabilityForResultLessOrEqualTo d k C))"
proof (induction "nat (k - int_of (modifier d))" arbitrary: k C)
  case 0
  obtain t C1 where g: "getProbabilityLessOrEqualCache d C = (t, C1)" by fastforce
  note ok1 = getProbabilityLessOrEqualCache_ok(1)[OF 0(2) g]
  show ?case
  proof (cases "t k")
    case (Some v)
    with getProbabilityLessOrEqualCache_ok(2)[OF 0(2) g assms, of k v] ok1 show ?thesis
      by (subst (1 2) cachedProbabilityForResultLessOrEqualTo.simps) (simp add: g)
  next
    case None
    from 0(1) have pure: "probabilityForResultLessOrEqualTo d k = Inr 0"
      by (subst probabilityForResultLessOrEqualTo.simps) simp
    from storeLessOrEqual_ok[OF ok1 assms pure] pure 0(1) show ?thesis
      by (subst (1 2) cachedProbabilityForResultLessOrEqualTo.simps) (simp add: g None)
  qed
next
  case (Suc n)
  then have less: "int_of (modifier d) < k" and n: "n = nat (k - 1 - int_of (modifier d))"
    by linarith+
  obtain t C1 where g: "getProbabilityLessOrEqualCache d C = (t, C1)" by fastforce
  note ok1 = getProbabilityLessOrEqualCache_ok(1)[OF Suc.prems g]
  show ?case
  proof (cases "t k")
    case (Some v)
    with getProbabilityLessOrEqualCache_ok(2)[OF Suc.prems g assms, of k v] ok1 show ?thesis
      by (subst (1 2) cachedProbabilityForResultLessOrEqualTo.simps) (simp add: g)
  next
    case None
    from assms obtain c s m where d: "inBounds c s" "d = mkDice c s m" by (auto simp: valid_iff)
    obtain below where below: "probabilityForResultLessOrEqualTo d (k - 1) = Inr below"
      using lessOrEqual_cdfN[OF d(1)] d(2) by blast
    obtain equal where equal: "probabilityForResultEqualTo d k = Inr equal"
      using valid_equal_Inr[OF assms] by blast
    have pure: "probabilityForResultLessOrEqualTo d k = Inr (below + equal)"
      using less by (subst probabilityForResultLessOrEqualTo.simps) (simp add: below equal)
    obtain x C2 where c2: "cachedProbabilityForResultLessOrEqualTo d (k - 1) C1 = (x, C2)" by fastforce
    with Suc.hyps(1)[OF n ok1] below have x: "x = Inr below" and ok2: "cachesOk C2" by auto
    obtain y C3 where c3: "cachedProbabilityForResultEqualTo d k C2 = (y, C3)" by fastforce
    with cachedProbabilityForResultEqualTo_transparent[OF assms ok2, of k] equal
    have y: "y = Inr equal" and ok3: "cachesOk C3" by auto
    from storeLessOrEqual_ok[OF ok3 assms pure] pure less show ?thesis
      by (subst (1 2) cachedProbabilityForResultLessOrEqualTo.simps) (simp add: g None c2 x c3 y)
  qed
qed

section \<open>Lemmas: values on concrete dice\<close>

lemma expectedValue_1d6:
  "calculateExpectedValue \<lparr>name = ''1d6'', count = Num 1, sides = Num 6, modifier = Num 0\<rparr>
     = Inr (391895 / 93312)"
  by (simp add: calculateExpectedValue.simps engine_eval)

lemma expectedValue_2d6:
  "calculateExpectedValue \<lparr>name = ''2d6'', count = Num 2, sides = Num 6, modifier = Num 0\<rparr>
     = Inr (391895 / 46656)"
  by (subst calculateExpectedValue.simps)
     (simp add: withCount_def Dice_new_def require_def prettyName_def showNat.simps expectedValue_1d6)

lemma probabilityToWinAgainst_1d4:
  "probabilityToWinAgainst \<lparr>name = ''1d4'', count = Num 1, sides = Num 4, modifier = Num 0\<rparr>
     \<lparr>name = ''1d4'', count = Num 1, sides = Num 4, modifier = Num 0\<rparr> = Inr (6706791 / 16777216)"
  by (simp add: probabilityToWinAgainst_def engine_eval)

lemma calculateMedian_1d6:
  "calculateMedian \<lparr>name = ''1d6'', count = Num 1, sides = Num 6, modifier = Num 0\<rparr> = Some (Inr 3)"
  by (simp add: calculateMedian_def medianLoop.simps probabilityForResultGreaterOrEqualTo_def engine_eval)

lemma calculateVariance_1d2:
  "calculateVariance \<lparr>name = ''1d2'', count = Num 1, sides = Num 2, modifier = Num 0\<rparr> 3
     = Inr (16776927 / 2097152)"
  by (simp add: calculateVariance.simps engine_eval)

lemma calculateVariance_1d6_plus_5000:
  "calculateVariance \<lparr>name = ''1d6+5000'', count = Num 1, sides = Num 6, modifier = Num 5000\<rparr> 5001
     = Inr 0"
  by (simp add: calculateVariance.simps engine_eval)

section \<open>The claims\<close>

subsection \<open>C1: the expected value of 1d6 and 2d6\<close>

text \<open>
  Claim C1, as stated, fails: the dice parsed from \<open>1d6\<close> has the expected value
  \<open>391895 / 93312\<close>, which is above 4.19, and the dice parsed from \<open>2d6\<close> twice that.
\<close>

theorem expectedValue_1d6_not_3_5:
  "parse ''1d6'' = Inr \<lparr>name = ''1d6'', count = Num 1, sides = Num 6, modifier = Num 0\<rparr>
   \<and> calculateExpectedValue \<lparr>name = ''1d6'', count = Num 1, sides = Num 6, modifier = Num 0\<rparr>
       = Inr (391895 / 93312)
   \<and> (3.5::real) + 0.69 < 391895 / 93312
   \<and> parse ''2d6'' = Inr \<lparr>name = ''2d6'', count = Num 2, sides = Num 6, modifier = Num 0\<rparr>
   \<and> calculateExpectedValue \<lparr>name = ''2d6'', count = Num 2, sides = Num 6, modifier = Num 0\<rparr>
       = Inr (391895 / 46656)
   \<and> (7::real) + 1.39 < 391895 / 46656"
  by (simp add: expectedValue_1d6 expectedValue_2d6 parse_eval)

text \<open>
  Claim C1, amended. The dice parsed from \<open>1d6\<close> has an expected value within 0.001 of 4.2,
  the mean of a die of six sides that is rolled again on its highest face, and the dice
  parsed from \<open>2d6\<close> has twice that value, within 0.001 of 8.4.
\<close>

theorem expectedValue_exploding_d6:
  "\<exists>d1 d2 v. parse ''1d6'' = Inr d1 \<and> parse ''2d6'' = Inr d2
      \<and> calculateExpectedValue d1 = Inr v \<and> \<bar>v - 4.2\<bar> < 0.001
      \<and> calculateExpectedValue d2 = Inr (2 * v) \<and> \<bar>2 * v - 8.4\<bar> < 0.001"
proof -
  have "parse ''1d6'' = Inr \<lparr>name = ''1d6'', count = Num 1, sides = Num 6, modifier = Num 0\<rparr>"
    and "parse ''2d6'' = Inr \<lparr>name = ''2d6'', count = Num 2, sides = Num 6, modifier = Num 0\<rparr>"
    by (simp_all add: parse_eval)
  moreover have "\<bar>(391895 / 93312 :: real) - 4.2\<bar> < 0.001"
    and "\<bar>2 * (391895 / 93312 :: real) - 8.4\<bar> < 0.001"
    by simp_all
  ultimately show ?thesis
    using expectedValue_1d6 expectedValue_2d6 by (intro exI[of _ "391895 / 93312"] exI conjI) auto
qed

subsection \<open>C2: the probability of a result of a single die\<close>

text \<open>
  Claim C2. For a valid Dice with count 1 and every integer \<open>k\<close>,
  \<open>probabilityForResultEqualTo(k)\<close> is 0 when \<open>k - modifier\<close> is negative or a multiple of
  \<open>sides\<close>, and \<open>sides\<close> to the power \<open>-(floor((k - modifier) / sides) + 1)\<close> otherwise.
  The method with the caches returns this value on consistent caches.
\<close>

theorem probabilityForResultEqualTo_single_die:
  assumes "valid d" and "count d = Num 1"
  shows "probabilityForResultEqualTo d k =
           Inr (if k - int_of (modifier d) < 0 \<or> int_of (sides d) dvd (k - int_of (modifier d)) then 0
                else real_of_int (int_of (sides d))
                       powi (- (\<lfloor>real_of_int (k - int_of (modifier d)) / real_of_int (int_of (sides d))\<rfloor> + 1)))
         \<and> (\<forall>C. cachesOk C \<longrightarrow>
               fst (cachedProbabilityForResultEqualTo d k C) = probabilityForResultEqualTo d k)"
proof -
  from assms obtain s m where d: "inBounds 1 s" "d = mkDice 1 s m" "sides d = Num s" "modifier d = Num m"
    by (auto elim!: valid_fields)
  then have s: "0 < s" by (simp add: inBounds_def)
  have "\<lfloor>real_of_int (k - m) / real_of_int s\<rfloor> = (k - m) div s"
    by (rule floor_divide_of_int_eq)
  moreover have "0 \<le> (k - m) div s + 1" if "\<not> k - m < 0"
    using that s by (simp add: pos_imp_zdiv_nonneg_iff)
  ultimately have "probabilityForResultEqualTo d k =
           Inr (if k - int_of (modifier d) < 0 \<or> int_of (sides d) dvd (k - int_of (modifier d)) then 0
                else real_of_int (int_of (sides d))
                       powi (- (\<lfloor>real_of_int (k - int_of (modifier d)) / real_of_int (int_of (sides d))\<rfloor> + 1)))"
    unfolding probabilityForResultEqualTo_def d(2) calculate_single[OF s]
    by (auto simp: singlePmf_def mkDice_def power_int_def field_simps)
  with cachedProbabilityForResultEqualTo_transparent[OF assms(1)] show ?thesis by blast
qed

theorem probabilityForResultEqualTo_single_die_witness:
  "valid \<lparr>name = ''1d4'', count = Num 1, sides = Num 4, modifier = Num 0\<rparr>
   \<and> cachesOk emptyCaches
   \<and> probabilityForResultEqualTo \<lparr>name = ''1d4'', count = Num 1, sides = Num 4, modifier = Num 0\<rparr> 9 = Inr (1 / 64)
   \<and> probabilityForResultEqualTo \<lparr>name = ''1d4'', count = Num 1, sides = Num 4, modifier = Num 0\<rparr> 8 = Inr 0
   \<and> fst (cachedProbabilityForResultEqualTo
            \<lparr>name = ''1d4'', count = Num 1, sides = Num 4, modifier = Num 0\<rparr> 9 emptyCaches) = Inr (1 / 64)"
proof -
  let ?d = "\<lparr>name = ''1d4'', count = Num 1, sides = Num 4, modifier = Num 0\<rparr>"
  have v: "valid ?d" by (simp add: valid_eval)
  show ?thesis
    using v cachesOk_empty probabilityForResultEqualTo_single_die[OF v, of 9]
      probabilityForResultEqualTo_single_die[OF v, of 8]
    by simp
qed

subsection \<open>C3: the win probability of 1d4 against 1d4\<close>

text \<open>
  Claim C3, as stated, fails: for two dice parsed from \<open>1d4\<close> the win probability is
  \<open>6706791 / 16777216\<close>, which is above 0.399.
\<close>

theorem probabilityToWinAgainst_1d4_not_0_375:
  "parse ''1d4'' = Inr \<lparr>name = ''1d4'', count = Num 1, sides = Num 4, modifier = Num 0\<rparr>
   \<and> probabilityToWinAgainst \<lparr>name = ''1d4'', count = Num 1, sides = Num 4, modifier = Num 0\<rparr>
         \<lparr>name = ''1d4'', count = Num 1, sides = Num 4, modifier = Num 0\<rparr> = Inr (6706791 / 16777216)
   \<and> (0.375::real) + 0.024 < 6706791 / 16777216"
  by (simp add: probabilityToWinAgainst_1d4 parse_eval)

text \<open>
  Claim C3, amended. For two dice parsed from \<open>1d4\<close>, the win probability of one against
  the other, the sum of P(self = i) * P(other < i), is within 0.001 of 0.4: the dice
  explode, a tie has probability 0.2, and ties count for neither side.
\<close>

theorem probabilityToWinAgainst_exploding_d4:
  "\<exists>d v. parse ''1d4'' = Inr d \<and> probabilityToWinAgainst d d = Inr v \<and> \<bar>v - 0.4\<bar> < 0.001"
proof -
  have "parse ''1d4'' = Inr \<lparr>name = ''1d4'', count = Num 1, sides = Num 4, modifier = Num 0\<rparr>"
    by (simp add: parse_eval)
  moreover have "\<bar>(6706791 / 16777216 :: real) - 0.4\<bar> < 0.001" by simp
  ultimately show ?thesis
    using probabilityToWinAgainst_1d4 by blast
qed

subsection \<open>C4: the variance of several dice\<close>

text \<open>
  Claim C4, as stated, fails in its last part: the dice parsed from \<open>2d6+5000\<close> is valid
  and has count 2, and for the argument 5001 both it and the die \<open>1d6+5000\<close> have the
  variance 0, so the value returned is count times the value of the single die. The sum
  starts at the modifier, above \<open>maxIterations\<close>, and is left after the terms at 5000 and
  5001, which are both 0.
\<close>

theorem calculateVariance_2d6_plus_5000_count_times:
  "parse ''2d6+5000'' = Inr \<lparr>name = ''2d6+5000'', count = Num 2, sides = Num 6, modifier = Num 5000\<rparr>
   \<and> valid \<lparr>name = ''2d6+5000'', count = Num 2, sides = Num 6, modifier = Num 5000\<rparr>
   \<and> calculateVariance \<lparr>name = ''1d6+5000'', count = Num 1, sides = Num 6, modifier = Num 5000\<rparr> 5001
       = Inr 0
   \<and> calculateVariance \<lparr>name = ''2d6+5000'', count = Num 2, sides = Num 6, modifier = Num 5000\<rparr> 5001
       = Inr (2 * 0)"
proof -
  have "parse ''2d6+5000'' = Inr \<lparr>name = ''2d6+5000'', count = Num 2, sides = Num 6, modifier = Num 5000\<rparr>"
    by (simp add: parse_eval)
  moreover have "valid \<lparr>name = ''2d6+5000'', count = Num 2, sides = Num 6, modifier = Num 5000\<rparr>"
    by (simp add: valid_eval)
  moreover have "calculateVariance \<lparr>name = ''2d6+5000'', count = Num 2, sides = Num 6, modifier = Num 5000\<rparr> 5001
       = Inr (2 * 0)"
    by (subst calculateVariance.simps)
       (simp add: withCount_def Dice_new_def require_def prettyName_def showNat.simps
          calculateVariance_1d6_plus_5000)
  ultimately show ?thesis using calculateVariance_1d6_plus_5000 by simp
qed

text \<open>
  Claim C4, amended. For a valid Dice with count \<open>c > 1\<close> and every argument \<open>exp\<close>,
  \<open>calculateVariance(exp)\<close> returns the value \<open>v\<close> that it returns for the die of count 1
  with the same sides and modifier: the sum of \<open>(exp - i)\<^sup>2\<close> times the probability that
  one die shows \<open>i\<close>, for \<open>i\<close> from the modifier to the first index at which
  \<open>simulateSumToInfinity\<close> stops. The value returned is \<open>c\<close> times \<open>v\<close> exactly when
  \<open>v\<close> is 0; for a modifier of at most 17 \<open>v\<close> is positive, and the value returned is not
  \<open>c\<close> times \<open>v\<close>.
\<close>

theorem calculateVariance_several_dice:
  assumes "valid d" and "count d = Num c" and "1 < c"
  shows "\<exists>n v. int_of (modifier d) < n
           \<and> stopsAt (varianceTerm (int_of (sides d)) (int_of (modifier d)) expect)
                (defaultOptions\<lparr>startIndex := int_of (modifier d)\<rparr>) n
           \<and> (\<forall>j. int_of (modifier d) < j \<and> j < n \<longrightarrow>
                  \<not> stopsAt (varianceTerm (int_of (sides d)) (int_of (modifier d)) expect)
                      (defaultOptions\<lparr>startIndex := int_of (modifier d)\<rparr>) j)
           \<and> v = (\<Sum>j = int_of (modifier d)..n.
                     (expect - real_of_int j)\<^sup>2 * singlePmf (int_of (sides d)) (j - int_of (modifier d)))
           \<and> calculateVariance
                \<lparr>name = prettyName (Num 1) (sides d) (modifier d), count = Num 1,
                 sides = sides d, modifier = modifier d\<rparr> expect = Inr v
           \<and> calculateVariance d expect = Inr v
           \<and> (calculateVariance d expect = Inr (real_of_int c * v) \<longleftrightarrow> v = 0)
           \<and> (int_of (modifier d) \<le> 17 \<longrightarrow> 0 < v \<and> calculateVariance d expect \<noteq> Inr (real_of_int c * v))"
proof -
  from assms obtain s m where d: "inBounds c s" "d = mkDice c s m" "sides d = Num s" "modifier d = Num m"
    by (auto elim!: valid_fields)
  then have s: "0 < s" "2 \<le> s" by (simp_all add: inBounds_def)
  let ?opts = "defaultOptions\<lparr>startIndex := m\<rparr>"
  let ?f = "varianceTerm s m expect"
  have single: "\<lparr>name = prettyName (Num 1) (sides d) (modifier d), count = Num 1,
                 sides = sides d, modifier = modifier d\<rparr> = mkDice 1 s m"
    by (simp add: d(3,4) mkDice_def)
  obtain n where n: "startIndex ?opts < n" "stopsAt ?f ?opts n"
      "\<forall>j. startIndex ?opts < j \<and> j < n \<longrightarrow> \<not> stopsAt ?f ?opts j"
      "simulateSumToInfinity (\<lambda>i. Inr (?f i)) ?opts = Inr (\<Sum>j = startIndex ?opts..n. ?f j)"
    using simulateSumToInfinity_pure[of ?opts ?f] by blast
  define v where "v = (\<Sum>j = m..n. ?f j)"
  have one: "calculateVariance (mkDice 1 s m) expect = Inr v"
    using n(4) by (simp add: calculateVariance_single[OF s(1)] v_def)
  have several: "calculateVariance d expect = Inr v"
    using calculateVariance_several[OF d(1), of m expect] assms(3) one by (simp add: d(2))
  have times: "calculateVariance d expect = Inr (real_of_int c * v) \<longleftrightarrow> v = 0"
    using several assms(3) by auto
  have pos: "0 < v" if "m \<le> 17"
  proof -
    have "20 \<le> n" using n(2) by (simp add: stopsAt_def defaultOptions_def)
    with that have "m + 3 \<le> n" by simp
    then show ?thesis unfolding v_def by (rule varianceTerm_sum_pos[OF s(2)])
  qed
  have "int_of (modifier d) < n" using n(1) by (simp add: d(4))
  moreover have "stopsAt (varianceTerm (int_of (sides d)) (int_of (modifier d)) expect)
                (defaultOptions\<lparr>startIndex := int_of (modifier d)\<rparr>) n"
    using n(2) by (simp add: d(3,4))
  moreover have "\<forall>j. int_of (modifier d) < j \<and> j < n \<longrightarrow>
                  \<not> stopsAt (varianceTerm (int_of (sides d)) (int_of (modifier d)) expect)
                      (defaultOptions\<lparr>startIndex := int_of (modifier d)\<rparr>) j"
    using n(3) by (simp add: d(3,4))
  moreover have "v = (\<Sum>j = int_of (modifier d)..n.
                     (expect - real_of_int j)\<^sup>2 * singlePmf (int_of (sides d)) (j - int_of (modifier d)))"
    by (simp add: v_def d(3,4) varianceTerm_def)
  moreover have "int_of (modifier d) \<le> 17 \<longrightarrow> 0 < v \<and> calculateVariance d expect \<noteq> Inr (real_of_int c * v)"
    using pos times by (auto simp: d(4))
  ultimately show ?thesis
    using one several times unfolding single by blast
qed

theorem calculateVariance_several_dice_witness:
  "valid \<lparr>name = ''2d2'', count = Num 2, sides = Num 2, modifier = Num 0\<rparr>
   \<and> calculateVariance \<lparr>name = ''1d2'', count = Num 1, sides = Num 2, modifier = Num 0\<rparr> 3
       = Inr (16776927 / 2097152)
   \<and> calculateVariance \<lparr>name = ''2d2'', count = Num 2, sides = Num 2, modifier = Num 0\<rparr> 3
       = Inr (16776927 / 2097152)
   \<and> calculateVariance \<lparr>name = ''2d2'', count = Num 2, sides = Num 2, modifier = Num 0\<rparr> 3
       \<noteq> Inr (2 * (16776927 / 2097152))"
proof -
  let ?d = "\<lparr>name = ''2d2'', count = Num 2, sides = Num 2, modifier = Num 0\<rparr>"
  have v: "valid ?d" by (simp add: valid_eval)
  have "(1::int) < 2" by simp
  from calculateVariance_several_dice[OF v _ this, of 3]
  obtain w where
    "calculateVariance \<lparr>name = ''1d2'', count = Num 1, sides = Num 2, modifier = Num 0\<rparr> 3 = Inr w"
    "calculateVariance ?d 3 = Inr w"
    by (auto simp: prettyName_def showNat.simps)
  with v calculateVariance_1d2 show ?thesis by simp
qed

subsection \<open>C5: what simulateSumToInfinity returns\<close>

text \<open>
  Claim C5. For a term function \<open>f\<close> and any options, \<open>simulateSumToInfinity\<close> returns
  \<open>f(startIndex) + ... + f(n)\<close>, where \<open>n\<close> is the first index above \<open>startIndex\<close> with
  \<open>n \<ge> minIterations\<close> and (\<open>n \<ge> maxIterations\<close> or both \<open>f(n)\<close> and \<open>f(n + 1)\<close> at most
  the threshold). A term at most the threshold followed by a larger one ends the sum only
  at \<open>maxIterations\<close>.
\<close>

theorem simulateSumToInfinity_sum:
  "\<exists>n. startIndex opts < n \<and> stopsAt f opts n
       \<and> (\<forall>j. startIndex opts < j \<and> j < n \<longrightarrow> \<not> stopsAt f opts j)
       \<and> simulateSumToInfinity (\<lambda>i. Inr (f i)) opts = Inr (\<Sum>j = startIndex opts..n. f j)
       \<and> (f n \<le> threshold opts \<and> threshold opts < f (n + 1) \<longrightarrow> maxIterations opts \<le> n)"
proof -
  obtain n where n: "startIndex opts < n" "stopsAt f opts n"
      "\<forall>j. startIndex opts < j \<and> j < n \<longrightarrow> \<not> stopsAt f opts j"
      "simulateSumToInfinity (\<lambda>i. Inr (f i)) opts = Inr (\<Sum>j = startIndex opts..n. f j)"
    using simulateSumToInfinity_pure[of opts f] by blast
  from n(2) have "f n \<le> threshold opts \<and> threshold opts < f (n + 1) \<longrightarrow> maxIterations opts \<le> n"
    by (auto simp: stopsAt_def)
  with n show ?thesis by blast
qed

theorem simulateSumToInfinity_sum_witness:
  "simulateSumToInfinity (\<lambda>i. Inr (if i = 3 then 0 else if i \<le> 5 then 1 else 0))
     \<lparr>threshold = 1 / 2, minIterations = 2, maxIterations = 100, startIndex = 1\<rparr> = Inr 4"
proof -
  let ?f = "\<lambda>i::int. if i = 3 then 0 else if i \<le> 5 then 1 else (0::real)"
  let ?o = "\<lparr>threshold = 1 / 2, minIterations = 2, maxIterations = 100, startIndex = 1\<rparr>"
  obtain n where n: "1 < n" "stopsAt ?f ?o n" "\<forall>j. 1 < j \<and> j < n \<longrightarrow> \<not> stopsAt ?f ?o j"
      "simulateSumToInfinity (\<lambda>i. Inr (?f i)) ?o = Inr (\<Sum>j = 1..n. ?f j)"
    using simulateSumToInfinity_sum[of ?o ?f] by auto
  have "stopsAt ?f ?o 6" by (simp add: stopsAt_def)
  with n(3) have "n \<le> 6" by force
  moreover have "\<not> stopsAt ?f ?o j" if "1 < j" "j < 6" for j
    using that by (auto simp: stopsAt_def)
  with n(1,2) have "6 \<le> n" by force
  ultimately have "n = 6" by simp
  moreover have "{1..6::int} = {1, 2, 3, 4, 5, 6}" by auto
  ultimately show ?thesis using n(4) by simp
qed

subsection \<open>C6: the cumulative probability\<close>

text \<open>
  Claim C6. For a valid Dice, \<open>probabilityForResultLessOrEqualTo\<close> is monotone in \<open>k\<close>,
  adds up to 1 with \<open>probabilityForResultGreaterThan\<close>, and is 0 for every \<open>k\<close> up to the
  modifier. The method with the caches returns these values on consistent caches and keeps
  the caches consistent, so the cached values are monotone as well.
\<close>

theorem probabilityForResultLessOrEqualTo_monotone:
  assumes "valid d"
  shows "(\<forall>k1 k2. k1 < k2 \<longrightarrow>
            (\<exists>a b. probabilityForResultLessOrEqualTo d k1 = Inr a
                 \<and> probabilityForResultLessOrEqualTo d k2 = Inr b \<and> a \<le> b))
       \<and> (\<forall>k. \<exists>a b. probabilityForResultLessOrEqualTo d k = Inr a
                 \<and> probabilityForResultGreaterThan d k = Inr b \<and> a + b = 1)
       \<and> (\<forall>k. k \<le> int_of (modifier d) \<longrightarrow> probabilityForResultLessOrEqualTo d k = Inr 0)
       \<and> (\<forall>C k. cachesOk C \<longrightarrow>
             fst (cachedProbabilityForResultLessOrEqualTo d k C) = probabilityForResultLessOrEqualTo d k
             \<and> cachesOk (snd (cachedProbabilityForResultLessOrEqualTo d k C)))"
proof -
  from assms obtain c s m where d: "inBounds c s" "d = mkDice c s m" "modifier d = Num m"
    by (auto elim!: valid_fields)
  then have s: "0 < s" by (simp add: inBounds_def)
  have "cdfN (nat (c - 1)) s m k1 \<le> cdfN (nat (c - 1)) s m k2" if "k1 < k2" for k1 k2
    using that by (intro cdfN_mono s) simp
  moreover have "cdfN (nat (c - 1)) s m k = 0" if "k \<le> m" for k
    using that by (simp add: cdfN_def)
  ultimately have "(\<forall>k1 k2. k1 < k2 \<longrightarrow>
            (\<exists>a b. probabilityForResultLessOrEqualTo d k1 = Inr a
                 \<and> probabilityForResultLessOrEqualTo d k2 = Inr b \<and> a \<le> b))
       \<and> (\<forall>k. \<exists>a b. probabilityForResultLessOrEqualTo d k = Inr a
                 \<and> probabilityForResultGreaterThan d k = Inr b \<and> a + b = 1)
       \<and> (\<forall>k. k \<le> int_of (modifier d) \<longrightarrow> probabilityForResultLessOrEqualTo d k = Inr 0)"
    by (simp add: d lessOrEqual_cdfN greaterThan_cdfN)
  with cachedProbabilityForResultLessOrEqualTo_transparent[OF assms] show ?thesis by blast
qed

theorem probabilityForResultLessOrEqualTo_monotone_witness:
  "valid \<lparr>name = ''2d6-1'', count = Num 2, sides = Num 6, modifier = Num (- 1)\<rparr>
   \<and> cachesOk emptyCaches
   \<and> (\<exists>a b. probabilityForResultLessOrEqualTo
               \<lparr>name = ''2d6-1'', count = Num 2, sides = Num 6, modifier = Num (- 1)\<rparr> 2 = Inr a
           \<and> probabilityForResultLessOrEqualTo
               \<lparr>name = ''2d6-1'', count = Num 2, sides = Num 6, modifier = Num (- 1)\<rparr> 5 = Inr b
           \<and> a \<le> b)
   \<and> (\<exists>a b. probabilityForResultLessOrEqualTo
               \<lparr>name = ''2d6-1'', count = Num 2, sides = Num 6, modifier = Num (- 1)\<rparr> 5 = Inr a
           \<and> probabilityForResultGreaterThan
               \<lparr>name = ''2d6-1'', count = Num 2, sides = Num 6, modifier = Num (- 1)\<rparr> 5 = Inr b
           \<and> a + b = 1)
   \<and> probabilityForResultLessOrEqualTo
        \<lparr>name = ''2d6-1'', count = Num 2, sides = Num 6, modifier = Num (- 1)\<rparr> (- 1) = Inr 0
   \<and> fst (cachedProbabilityForResultLessOrEqualTo
            \<lparr>name = ''2d6-1'', count = Num 2, sides = Num 6, modifier = Num (- 1)\<rparr> (- 1) emptyCaches) = Inr 0"
proof -
  let ?d = "\<lparr>name = ''2d6-1'', count = Num 2, sides = Num 6, modifier = Num (- 1)\<rparr>"
  have v: "valid ?d" by (simp add: valid_eval)
  note facts = probabilityForResultLessOrEqualTo_monotone[OF v]
  have "(2::int) < 5" by simp
  with facts have mono: "\<exists>a b. probabilityForResultLessOrEqualTo ?d 2 = Inr a
      \<and> probabilityForResultLessOrEqualTo ?d 5 = Inr b \<and> a \<le> b" by blast
  from facts have sum: "\<exists>a b. probabilityForResultLessOrEqualTo ?d 5 = Inr a
      \<and> probabilityForResultGreaterThan ?d 5 = Inr b \<and> a + b = 1" by blast
  from facts have zero: "probabilityForResultLessOrEqualTo ?d (- 1) = Inr 0" by simp
  from facts cachesOk_empty zero
  have "fst (cachedProbabilityForResultLessOrEqualTo ?d (- 1) emptyCaches) = Inr 0" by metis
  with v cachesOk_empty mono sum zero show ?thesis by blast
qed

subsection \<open>C7: the median loop\<close>

text \<open>
  Claim C7. The dice parsed from \<open>2d6-4\<close> is valid, and \<open>calculateMedian\<close> does not
  return on it: the convolution loop starts at \<open>i = 1\<close> and so leaves out the results of
  the single die that the negative modifier moves to 0 and below; the probabilities that
  remain add up to at most 1/3, and \<open>probabilityForResultLessOrEqualTo\<close> never reaches 0.5.
\<close>

theorem calculateMedian_2d6_minus_4:
  "parse ''2d6-4'' = Inr \<lparr>name = ''2d6-4'', count = Num 2, sides = Num 6, modifier = Num (- 4)\<rparr>
   \<and> valid \<lparr>name = ''2d6-4'', count = Num 2, sides = Num 6, modifier = Num (- 4)\<rparr>
   \<and> (\<forall>k. \<exists>v. probabilityForResultLessOrEqualTo
                \<lparr>name = ''2d6-4'', count = Num 2, sides = Num 6, modifier = Num (- 4)\<rparr> k = Inr v
              \<and> v \<le> 1 / 3)
   \<and> calculateMedian \<lparr>name = ''2d6-4'', count = Num 2, sides = Num 6, modifier = Num (- 4)\<rparr> = None"
proof -
  have "parse ''2d6-4'' = Inr \<lparr>name = ''2d6-4'', count = Num 2, sides = Num 6, modifier = Num (- 4)\<rparr>"
    by (simp add: parse_eval Let_def)
  moreover have "valid \<lparr>name = ''2d6-4'', count = Num 2, sides = Num 6, modifier = Num (- 4)\<rparr>"
    by (simp add: valid_eval)
  ultimately show ?thesis
    using lessOrEqual_2d6m4 calculateMedian_2d6m4 by blast
qed

subsection \<open>C8: the constructor\<close>

text \<open>
  Claim C8. The constructor accepts a count of 16 and rejects a count of 17 with the message
  \<open>Dice count may not exceed 32\<close>: the bound it enforces is 16, the bound it names is 32.
\<close>

theorem Dice_new_count_17_message:
  "Dice_new nm (Num 17) (Num 6) (Num 0) = Inl ''Dice count may not exceed 32''
   \<and> Dice_new nm (Num 16) (Num 6) (Num 0)
       = Inr \<lparr>name = nm, count = Num 16, sides = Num 6, modifier = Num 0\<rparr>"
  by (simp add: Dice_new_def require_def)

subsection \<open>C9: the pFail field\<close>

text \<open>
  Claim C9. For a valid Dice among valid concurring dice, \<open>calculate\<close> throws nothing; it
  returns a DiceResult exactly when \<open>calculateMedian\<close> returns, and the \<open>pFail\<close> field of
  that result is \<open>probabilityForResultLessThan(4)\<close>, which is
  \<open>probabilityForResultLessOrEqualTo(3)\<close>. \<open>calculateMedian\<close> returns whenever the count
  is 1 or the modifier is not negative.
\<close>

theorem calculate_pFail:
  assumes "valid d" and "\<forall>other\<in>set ds. valid other"
  shows "(calculateMedian d = None \<longrightarrow> calculate d ds = None)
       \<and> (calculateMedian d \<noteq> None \<longrightarrow>
            (\<exists>r. calculate d ds = Some (Inr r)
                \<and> Inr (pFail r) = probabilityForResultLessThan d 4
                \<and> probabilityForResultLessThan d 4 = probabilityForResultLessOrEqualTo d 3))
       \<and> (count d = Num 1 \<or> 0 \<le> int_of (modifier d) \<longrightarrow> calculateMedian d \<noteq> None)"
proof -
  from assms(1) obtain c s m where d: "inBounds c s" "d = mkDice c s m" by (auto simp: valid_iff)
  obtain ev where ev: "calculateExpectedValue d = Inr ev"
    using calculateExpectedValue_total[OF d(1)] d(2) by blast
  obtain var where var: "calculateVariance d ev = Inr var"
    using calculateVariance_total[OF d(1)] d(2) by blast
  obtain pf where pf: "probabilityForResultLessThan d 4 = Inr pf"
    using lessThan_cdfN[OF d(1)] d(2) by blast
  obtain pmap where pmap: "calculateProbabilityMap d 25 = Inr pmap"
    using probabilityMapFrom_total[OF d(1)] d(2) unfolding calculateProbabilityMap_def by blast
  obtain wins where wins: "calculateWinProbabilityMap d ds = Inr wins"
    using calculateWinProbabilityMap_total[OF assms] by blast
  have none: "calculate d ds = None" if "calculateMedian d = None"
    using that by (simp add: calculate_def ev var)
  have some: "\<exists>r. calculate d ds = Some (Inr r) \<and> Inr (pFail r) = probabilityForResultLessThan d 4"
    if "calculateMedian d \<noteq> None"
  proof -
    from that obtain y where y: "calculateMedian d = Some y" by auto
    then obtain med where "y = Inr med"
      using medianLoop_returns_number[OF assms(1)] unfolding calculateMedian_def by blast
    with y show ?thesis by (simp add: calculate_def ev var pf pmap wins)
  qed
  have "probabilityForResultLessThan d 4 = probabilityForResultLessOrEqualTo d 3"
    by (simp add: probabilityForResultLessThan_def)
  moreover have "calculateMedian d \<noteq> None" if "count d = Num 1 \<or> 0 \<le> int_of (modifier d)"
    using calculateMedian_returns[OF assms(1) that] by auto
  ultimately show ?thesis using none some by blast
qed

theorem calculate_pFail_witness:
  "valid \<lparr>name = ''1d6'', count = Num 1, sides = Num 6, modifier = Num 0\<rparr>
   \<and> (\<exists>r. calculate \<lparr>name = ''1d6'', count = Num 1, sides = Num 6, modifier = Num 0\<rparr>
              [\<lparr>name = ''1d6'', count = Num 1, sides = Num 6, modifier = Num 0\<rparr>] = Some (Inr r)
          \<and> median r = 3 \<and> pFail r = 1 / 2)"
proof -
  let ?d = "\<lparr>name = ''1d6'', count = Num 1, sides = Num 6, modifier = Num 0\<rparr>"
  have v: "valid ?d" by (simp add: valid_eval)
  then have vs: "\<forall>other\<in>set [?d]. valid other" by simp
  have "probabilityForResultLessThan ?d 4 = Inr (1 / 2)"
    by (simp add: engine_eval)
  with calculate_pFail[OF v vs] calculateMedian_1d6 v show ?thesis
    by (auto simp: calculate_def split: sum.splits)
qed

subsection \<open>C10: a descriptor with an empty modifier token\<close>

text \<open>
  Claim C10. The descriptor \<open>1d6-\<close> has a modifier delimiter and an empty modifier token.
  \<open>Dice.parse\<close> throws nothing on it: \<open>parseInt\<close> of the empty token is \<open>NaN\<close>, the
  constructor does not constrain the modifier, and the result is a Dice whose modifier is
  \<open>NaN\<close> and whose canonical name \<open>1d6-NaN\<close> contains \<open>NaN\<close>.
\<close>

theorem parse_empty_modifier_token:
  "parseInt (trim (split_regex ''1d6-'' ! 2)) = NaN
   \<and> parse ''1d6-'' = Inr \<lparr>name = ''1d6-NaN'', count = Num 1, sides = Num 6, modifier = NaN\<rparr>"
  by (simp add: parse_eval)

end
